theory Spec2Isabelle
  imports Main "HOL-Library.Word"
begin

unbundle bit_operations_syntax

section \<open>The batched SHA-256 host driver (sha256\_host.c)\<close>

text \<open>
  The host program reads a file line by line, groups the lines into batches of at most
  \<open>MAX_BATCH_LINES\<close>, packs every batch into one zero-filled buffer of equal-sized slots,
  hands the buffer and the array of line lengths to an OpenCL kernel, and prints the
  returned digests as hexadecimal lines.

  Conventions of the model.
  \<^item> A file, a line and a buffer are a \<open>string\<close>: a list of 8-bit characters.
  \<^item> \<open>size_t\<close> is 64 bits wide; a \<open>size_t\<close> value is a \<open>nat\<close>, and \<open>size_t n\<close> writes out
    the wrap-around wherever the C expression is computed in \<open>size_t\<close>.
  \<^item> \<open>uint32_t\<close> values that are stored or passed to the kernel are \<open>32 word\<close>.
  \<^item> Every C library and OpenCL call that can fail takes its outcome from the environment
    record \<open>host_env\<close>; every \<open>exit (1)\<close> and \<open>return 1\<close> of the source is a \<open>failure\<close>.
  \<^item> A \<open>memcpy\<close> that leaves its buffers is undefined behaviour in C; the model makes it
    the failure \<open>OutOfBounds\<close>, whose status is \<open>Undefined\<close>.
  \<^item> The diagnostics on \<open>stderr\<close> and the throughput statistics are not modelled.
\<close>

subsection \<open>Machine types\<close>

type_synonym byte = "8 word"
type_synonym u32 = "32 word"
type_synonym cl_int = int

definition size_t :: "nat \<Rightarrow> nat" where
  "size_t n = n mod 2 ^ 64"

definition SSIZE_MAX :: nat where
  "SSIZE_MAX = 2 ^ 63 - 1"

definition MAX_BATCH_LINES :: nat where
  "MAX_BATCH_LINES = 50000000"

definition CL_SUCCESS :: cl_int where
  "CL_SUCCESS = 0"

definition CL_DEVICE_NOT_FOUND :: cl_int where
  "CL_DEVICE_NOT_FOUND = - 1"

subsection \<open>Failures and the environment\<close>

datatype failure =
    Usage
  | CannotOpen string
  | NoPlatforms
  | NoDevices
  | ClFailure string cl_int
  | SourceUnreadable
  | OutOfMemory
  | OutOfBounds

datatype status = Exited int | Undefined

fun exit_status :: "failure \<Rightarrow> status" where
  "exit_status OutOfBounds = Undefined"
| "exit_status f = Exited 1"

text \<open>What the input stream does once its bytes are used up.\<close>

datatype stream_end = EndOfFile | ReadFailure

record stream =
  pending :: string
  at_end :: stream_end

text \<open>
  One OpenCL platform as the device search sees it: the status and the device count of
  the three counting calls of \<open>clGetDeviceIDs\<close> (GPU, CPU, ALL) and the status of the
  listing call.
\<close>

record cl_platform =
  gpu_query :: "cl_int \<times> nat"
  cpu_query :: "cl_int \<times> nat"
  all_query :: "cl_int \<times> nat"
  list_query :: cl_int

text \<open>
  \<open>cl_status env msg n\<close> is the error code of the OpenCL call that \<open>CHECK_CL\<close> guards with
  the message \<open>msg\<close>, in batch \<open>n\<close> (0 before the first batch). \<open>engine\<close> is the device:
  from the message buffer, the length buffer, the stride argument and the global work
  size it gives the words of the output buffer.
\<close>

record host_env =
  readable :: "string \<Rightarrow> bool"
  writable :: "string \<Rightarrow> bool"
  input_end :: stream_end
  platforms :: "cl_platform list"
  cl_status :: "string \<Rightarrow> nat \<Rightarrow> cl_int"
  kernel_source_ok :: bool
  malloc_ok :: "nat \<Rightarrow> bool"
  engine :: "string \<Rightarrow> u32 list \<Rightarrow> u32 \<Rightarrow> nat \<Rightarrow> nat \<Rightarrow> u32"

definition CHECK_CL :: "cl_int \<Rightarrow> string \<Rightarrow> failure option" where
  "CHECK_CL err msg = (if err \<noteq> CL_SUCCESS then Some (ClFailure msg err) else None)"

text \<open>A run of guarded OpenCL calls: the first one that fails ends the program.\<close>

fun check_all :: "host_env \<Rightarrow> nat \<Rightarrow> string list \<Rightarrow> failure option" where
  "check_all env n [] = None"
| "check_all env n (msg # msgs) =
     (case CHECK_CL (cl_status env msg n) msg of
        Some f \<Rightarrow> Some f
      | None \<Rightarrow> check_all env n msgs)"

subsection \<open>Reading lines (main, lines 291--320)\<close>

text \<open>
  \<open>getline\<close> of the C library: the bytes up to and including the next newline, or the
  rest of the stream when no newline is left. It returns \<open>-1\<close> (here \<open>None\<close>) when no byte
  can be read, at the end of the file and after a read error alike.
\<close>

fun take_line :: "string \<Rightarrow> string" where
  "take_line [] = []"
| "take_line (c # cs) = (if c = CHR 0x0A then [c] else c # take_line cs)"

definition getline :: "stream \<Rightarrow> (string \<times> stream) option" where
  "getline fin =
     (if pending fin = [] then None
      else let line = take_line (pending fin)
           in Some (line, fin\<lparr>pending := drop (length line) (pending fin)\<rparr>))"

text \<open>
  A batch under construction: the copies of the lines, their lengths as stored for the
  kernel, and the running maximum length. \<open>num_msgs\<close> is the number of lines stored; the
  arrays of the source are longer, but only their first \<open>num_msgs\<close> entries are ever read.
\<close>

record batch =
  line_bufs :: "string list"
  lens_host :: "u32 list"
  max_len :: nat

definition num_msgs :: "batch \<Rightarrow> nat" where
  "num_msgs b = length (line_bufs b)"

definition empty_batch :: batch where
  "empty_batch = \<lparr>line_bufs = [], lens_host = [], max_len = 0\<rparr>"

text \<open>The length of a line once its trailing newline is dropped (lines 298--304).\<close>

definition strip_len :: "string \<Rightarrow> nat" where
  "strip_len line =
     (let len = length line
      in if len > 0 \<and> line ! (len - 1) = CHR 0x0A then len - 1 else len)"

text \<open>Lines 306--319 once the copy is allocated: store the copy and its length.\<close>

definition store_line :: "batch \<Rightarrow> string \<Rightarrow> batch" where
  "store_line b line =
     (let len = strip_len line;
          copy = take len line
      in \<lparr>line_bufs = line_bufs b @ [copy],
          lens_host = lens_host b @ [of_nat len],
          max_len = (if len > max_len b then len else max_len b)\<rparr>)"

function read_batch :: "host_env \<Rightarrow> nat \<Rightarrow> stream \<Rightarrow> batch \<Rightarrow> failure + (batch \<times> stream)" where
  "read_batch env max_batch_lines fin b =
     (if num_msgs b \<ge> max_batch_lines then Inr (b, fin)
      else case getline fin of
             None \<Rightarrow> Inr (b, fin)
           | Some (line, fin') \<Rightarrow>
               if \<not> malloc_ok env (if strip_len line > 0 then strip_len line else 1)
               then Inl OutOfMemory
               else read_batch env max_batch_lines fin' (store_line b line))"
  by pat_completeness auto

lemma take_line_nonempty: "cs \<noteq> [] \<Longrightarrow> take_line cs \<noteq> []"
  by (cases cs) auto

lemma take_line_length: "length (take_line cs) \<le> length cs"
  by (induction cs) auto

lemma getline_shorter:
  "getline fin = Some (line, fin') \<Longrightarrow> length (pending fin') < length (pending fin)"
  using take_line_length [of "pending fin"] take_line_nonempty [of "pending fin"]
  by (auto simp: getline_def Let_def split: if_splits)

termination read_batch
  by (relation "measure (\<lambda>(env, n, fin, b). length (pending fin))")
     (auto dest: getline_shorter)

declare read_batch.simps [simp del]

subsection \<open>Packing a batch (main, lines 329--367)\<close>

definition stride_bytes_of :: "nat \<Rightarrow> nat" where
  "stride_bytes_of maxlen =
     (if maxlen = 0 then 64
      else size_t (size_t (maxlen + 63) div 64 * 64))"

definition msg_stride_of :: "nat \<Rightarrow> u32" where
  "msg_stride_of stride_bytes = of_nat (stride_bytes div 4)"

definition total_bytes_of :: "nat \<Rightarrow> nat \<Rightarrow> nat" where
  "total_bytes_of n stride_bytes = size_t (n * stride_bytes)"

definition memcpy :: "string \<Rightarrow> nat \<Rightarrow> string \<Rightarrow> nat \<Rightarrow> string option" where
  "memcpy buf off src n =
     (if off + n \<le> length buf \<and> n \<le> length src
      then Some (take off buf @ take n src @ drop (off + n) buf)
      else None)"

definition copy_line :: "batch \<Rightarrow> nat \<Rightarrow> nat \<Rightarrow> string \<Rightarrow> string option" where
  "copy_line b stride_bytes k msgs_bytes =
     (let len_k = unat (lens_host b ! k)
      in if len_k > 0
         then memcpy msgs_bytes (size_t (k * stride_bytes)) (line_bufs b ! k) len_k
         else Some msgs_bytes)"

definition copy_lines :: "batch \<Rightarrow> nat \<Rightarrow> string \<Rightarrow> string option" where
  "copy_lines b stride_bytes msgs_bytes =
     fold (\<lambda>k m. Option.bind m (copy_line b stride_bytes k)) [0..<num_msgs b] (Some msgs_bytes)"

definition pack :: "host_env \<Rightarrow> batch \<Rightarrow> failure + string" where
  "pack env b =
     (let stride_bytes = stride_bytes_of (max_len b);
          total_bytes = total_bytes_of (num_msgs b) stride_bytes
      in if \<not> malloc_ok env total_bytes then Inl OutOfMemory
         else case copy_lines b stride_bytes (replicate total_bytes (CHR 0x00)) of
                None \<Rightarrow> Inl OutOfBounds
              | Some msgs_bytes \<Rightarrow> Inr msgs_bytes)"

subsection \<open>Dispatch (main, lines 369--457)\<close>

definition launch_batch :: "host_env \<Rightarrow> nat \<Rightarrow> batch \<Rightarrow> failure + (nat \<Rightarrow> u32)" where
  "launch_batch env batch_index b =
     (case pack env b of
        Inl f \<Rightarrow> Inl f
      | Inr msgs_bytes \<Rightarrow>
          (case check_all env batch_index
                  [''clCreateBuffer(buf_msgs)'', ''clCreateBuffer(buf_lens)'',
                   ''clCreateBuffer(buf_out)'', ''clSetKernelArg(msgs)'',
                   ''clSetKernelArg(lens)'', ''clSetKernelArg(msg_stride)'',
                   ''clSetKernelArg(digests)'', ''clEnqueueNDRangeKernel''] of
             Some f \<Rightarrow> Inl f
           | None \<Rightarrow>
               Inr (engine env msgs_bytes (lens_host b)
                      (msg_stride_of (stride_bytes_of (max_len b))) (num_msgs b))))"

definition read_back :: "host_env \<Rightarrow> nat \<Rightarrow> nat \<Rightarrow> (nat \<Rightarrow> u32) \<Rightarrow> failure + u32 list" where
  "read_back env batch_index n buf_out =
     (case check_all env batch_index
             [''clWaitForEvents'', ''clFinish'', ''clGetEventProfilingInfo(START)'',
              ''clGetEventProfilingInfo(END)''] of
        Some f \<Rightarrow> Inl f
      | None \<Rightarrow>
          if \<not> malloc_ok env (size_t (n * 8 * 4)) then Inl OutOfMemory
          else (case check_all env batch_index [''clEnqueueReadBuffer''] of
                  Some f \<Rightarrow> Inl f
                | None \<Rightarrow> Inr (map buf_out [0..<n * 8])))"

subsection \<open>Printing the digests (digest\_to\_hex and main, lines 459--478)\<close>

definition hexdig :: string where
  "hexdig = ''0123456789abcdef''"

definition digest_to_hex :: "byte list \<Rightarrow> string" where
  "digest_to_hex digest =
     concat (map (\<lambda>i. let v = (ucast (digest ! i) :: u32)
                      in [hexdig ! unat (drop_bit 4 v), hexdig ! unat (v AND 0xF)])
                 [0..<32])"

text \<open>The inner loop of lines 467--474: the eight words of \<open>d\<close>, most significant byte first.\<close>

definition digest_of_words :: "u32 list \<Rightarrow> byte list" where
  "digest_of_words d =
     concat (map (\<lambda>j. let v = d ! j
                      in [ucast (drop_bit 24 v AND 0xff), ucast (drop_bit 16 v AND 0xff),
                          ucast (drop_bit 8 v AND 0xff), ucast (v AND 0xff)])
                 [0..<8])"

definition emit :: "u32 list \<Rightarrow> nat \<Rightarrow> string" where
  "emit digests_host n =
     concat (map (\<lambda>k. digest_to_hex (digest_of_words (drop (k * 8) digests_host)) @ [CHR 0x0A])
                 [0..<n])"

subsection \<open>The batch loop (main, lines 285--510)\<close>

record run_state =
  fin :: stream
  fout :: string
  batch_index :: nat
  launches :: "nat list"

lemma read_batch_consumes:
  "read_batch env n s b = Inr (b', s') \<Longrightarrow>
   length (pending s') + num_msgs b' \<le> length (pending s) + num_msgs b"
proof (induction env n s b rule: read_batch.induct)
  case (1 env n s b)
  show ?case
  proof (cases "num_msgs b \<ge> n")
    case True
    with "1.prems" show ?thesis by (simp add: read_batch.simps [of env n s b])
  next
    case False
    show ?thesis
    proof (cases "getline s")
      case None
      with False "1.prems" show ?thesis by (simp add: read_batch.simps [of env n s b])
    next
      case (Some p)
      obtain line s1 where p: "p = (line, s1)" by (cases p)
      let ?ok = "malloc_ok env (if strip_len line > 0 then strip_len line else 1)"
      from False Some p "1.prems" have ok: ?ok
        by (auto simp: read_batch.simps [of env n s b] split: if_splits)
      with False Some p "1.prems" have rec: "read_batch env n s1 (store_line b line) = Inr (b', s')"
        by (simp add: read_batch.simps [of env n s b])
      have "length (pending s') + num_msgs b' \<le> length (pending s1) + num_msgs (store_line b line)"
        using "1.IH" [OF _ Some _ _ rec] False p ok by simp
      moreover have "length (pending s1) < length (pending s)"
        using getline_shorter Some p by simp
      moreover have "num_msgs (store_line b line) = num_msgs b + 1"
        by (simp add: store_line_def num_msgs_def Let_def)
      ultimately show ?thesis by simp
    qed
  qed
qed

function batch_loop :: "host_env \<Rightarrow> nat \<Rightarrow> run_state \<Rightarrow> failure option \<times> run_state" where
  "batch_loop env max_batch_lines st =
     (case read_batch env max_batch_lines (fin st) empty_batch of
        Inl f \<Rightarrow> (Some f, st)
      | Inr (b, fin') \<Rightarrow>
          if num_msgs b = 0 then (None, st\<lparr>fin := fin'\<rparr>)
          else (case launch_batch env (batch_index st + 1) b of
                  Inl f \<Rightarrow> (Some f, st\<lparr>fin := fin', batch_index := batch_index st + 1\<rparr>)
                | Inr buf_out \<Rightarrow>
                    (case read_back env (batch_index st + 1) (num_msgs b) buf_out of
                       Inl f \<Rightarrow>
                         (Some f, st\<lparr>fin := fin', batch_index := batch_index st + 1,
                                     launches := launches st @ [num_msgs b]\<rparr>)
                     | Inr digests_host \<Rightarrow>
                         batch_loop env max_batch_lines
                           (st\<lparr>fin := fin',
                               fout := fout st @ emit digests_host (num_msgs b),
                               batch_index := batch_index st + 1,
                               launches := launches st @ [num_msgs b]\<rparr>))))"
  by pat_completeness auto

termination batch_loop
proof (relation "measure (\<lambda>(env, n, st). length (pending (fin st)))", goal_cases)
  case 1
  show ?case by simp
next
  case (2 env n st x2 b s' buf_out digests_host)
  then have "length (pending s') + num_msgs b \<le> length (pending (fin st)) + num_msgs empty_batch"
    using read_batch_consumes by metis
  then have "length (pending s') + num_msgs b \<le> length (pending (fin st))"
    by (simp add: num_msgs_def empty_batch_def)
  moreover from 2 have "0 < num_msgs b"
    by simp
  ultimately have "length (pending s') < length (pending (fin st))"
    by linarith
  then show ?case
    by simp
qed

declare batch_loop.simps [simp del]

subsection \<open>Start-up (main, lines 116--274) and the whole program\<close>

text \<open>The device search of lines 163--196; the result is the index of the chosen platform.\<close>

fun select_device :: "cl_platform list \<Rightarrow> nat \<Rightarrow> failure + nat option" where
  "select_device [] pi = Inr None"
| "select_device (p # ps) pi =
     (let q1 = gpu_query p;
          q2 = (if fst q1 = CL_DEVICE_NOT_FOUND \<or> snd q1 = 0 then cpu_query p else q1);
          q3 = (if fst q2 = CL_DEVICE_NOT_FOUND \<or> snd q2 = 0 then all_query p else q2)
      in if fst q3 \<noteq> CL_SUCCESS \<or> snd q3 = 0 then select_device ps (pi + 1)
         else (case CHECK_CL (list_query p) ''clGetDeviceIDs(list)'' of
                 Some f \<Rightarrow> Inl f
               | None \<Rightarrow> Inr (Some pi)))"

text \<open>
  Everything between opening the two files and the first batch: platform and device
  selection, context and queue, reading and building the kernel, and the two arrays of
  batch metadata. \<open>None\<close> means that the program reaches the batch loop.
\<close>

definition bootstrap :: "host_env \<Rightarrow> nat \<Rightarrow> failure option" where
  "bootstrap env max_batch_lines =
     (case check_all env 0 [''clGetPlatformIDs(count)''] of
        Some f \<Rightarrow> Some f
      | None \<Rightarrow>
          if length (platforms env) = 0 then Some NoPlatforms
          else (case check_all env 0 [''clGetPlatformIDs(list)''] of
                  Some f \<Rightarrow> Some f
                | None \<Rightarrow>
                    (case select_device (platforms env) 0 of
                       Inl f \<Rightarrow> Some f
                     | Inr None \<Rightarrow> Some NoDevices
                     | Inr (Some p) \<Rightarrow>
                         (case check_all env 0
                                 [''clCreateContext'', ''clCreateCommandQueueWithProperties''] of
                            Some f \<Rightarrow> Some f
                          | None \<Rightarrow>
                              if \<not> kernel_source_ok env then Some SourceUnreadable
                              else (case check_all env 0
                                           [''clCreateProgramWithSource'', ''clBuildProgram'',
                                            ''clCreateKernel''] of
                                      Some f \<Rightarrow> Some f
                                    | None \<Rightarrow>
                                        if \<not> malloc_ok env (size_t (max_batch_lines * 8))
                                           \<or> \<not> malloc_ok env (size_t (max_batch_lines * 4))
                                        then Some OutOfMemory
                                        else None)))))"

record outcome =
  status :: status
  files_after :: "string \<Rightarrow> string option"
  launched :: "nat list"

text \<open>
  \<open>main env max_batch_lines argv fs\<close>: the program run with the arguments \<open>argv\<close> on the
  file system \<open>fs\<close> (a map from paths to contents). In the source \<open>max_batch_lines\<close> is the
  constant \<open>MAX_BATCH_LINES\<close>.
\<close>

definition main :: "host_env \<Rightarrow> nat \<Rightarrow> string list \<Rightarrow> (string \<Rightarrow> string option) \<Rightarrow> outcome" where
  "main env max_batch_lines argv fs =
     (if length argv \<noteq> 3 then \<lparr>status = Exited 1, files_after = fs, launched = []\<rparr>
      else let input_path = argv ! 1; output_path = argv ! 2
           in if fs input_path = None \<or> \<not> readable env input_path
              then \<lparr>status = Exited 1, files_after = fs, launched = []\<rparr>
              else if \<not> writable env output_path
              then \<lparr>status = Exited 1, files_after = fs, launched = []\<rparr>
              else let fs1 = fs(output_path \<mapsto> []);
                       input = \<lparr>pending = (case fs1 input_path of None \<Rightarrow> [] | Some c \<Rightarrow> c),
                                at_end = input_end env\<rparr>
                   in case bootstrap env max_batch_lines of
                        Some f \<Rightarrow> \<lparr>status = exit_status f, files_after = fs1, launched = []\<rparr>
                      | None \<Rightarrow>
                          (let (r, st) = batch_loop env max_batch_lines
                                           \<lparr>fin = input, fout = [], batch_index = 0, launches = []\<rparr>
                           in \<lparr>status = (case r of None \<Rightarrow> Exited 0 | Some f \<Rightarrow> exit_status f),
                               files_after = fs1(output_path \<mapsto> fout st),
                               launched = launches st\<rparr>))"

section \<open>Vocabulary of the specification\<close>

text \<open>
  The lines of a byte stream: every line but possibly the last ends with a newline, and
  the lines concatenated give the stream back.
\<close>

fun lines_of :: "string \<Rightarrow> string list" where
  "lines_of [] = []"
| "lines_of (c # cs) =
     (if c = CHR 0x0A then [c] # lines_of cs
      else (case lines_of cs of [] \<Rightarrow> [[c]] | l # ls \<Rightarrow> (c # l) # ls))"

text \<open>A record is a line without the newline that ends it.\<close>

definition record_of :: "string \<Rightarrow> string" where
  "record_of line = (if line \<noteq> [] \<and> last line = CHR 0x0A then butlast line else line)"

text \<open>\<open>align_up x a\<close>: \<open>x\<close> rounded up to a multiple of \<open>a\<close>.\<close>

definition align_up :: "nat \<Rightarrow> nat \<Rightarrow> nat" where
  "align_up x a = (x + a - 1) div a * a"

text \<open>The lowercase hexadecimal digit of a value below 16.\<close>

definition hex_digit :: "nat \<Rightarrow> char" where
  "hex_digit n = ''0123456789abcdef'' ! n"

text \<open>A byte as two hexadecimal digits, the high one first.\<close>

definition hex_byte :: "nat \<Rightarrow> string" where
  "hex_byte n = [hex_digit (n div 16), hex_digit (n mod 16)]"

text \<open>The four bytes of a 32-bit word, the most significant first.\<close>

definition be_bytes :: "u32 \<Rightarrow> nat list" where
  "be_bytes w = [unat w div 2 ^ 24 mod 256, unat w div 2 ^ 16 mod 256,
                 unat w div 2 ^ 8 mod 256, unat w mod 256]"

text \<open>
  The output line of a digest: its words as bytes in big-endian order, every byte as two
  hexadecimal digits, and a newline.
\<close>

definition hex_line :: "u32 list \<Rightarrow> string" where
  "hex_line ws = concat (map hex_byte (concat (map be_bytes ws))) @ [CHR 0x0A]"


text \<open>
  The slot of a record in a packed buffer of stride \<open>stride_bytes\<close>: the bytes the packing
  loop copies (as many as the stored 32-bit length says), then zeros up to the stride.
\<close>

definition slot_of :: "nat \<Rightarrow> string \<Rightarrow> string" where
  "slot_of stride_bytes r =
     take (length r mod 2 ^ 32) r @ replicate (stride_bytes - length r mod 2 ^ 32) (CHR 0x00)"


text \<open>No allocation and no guarded OpenCL call fails.\<close>

definition env_ok :: "host_env \<Rightarrow> bool" where
  "env_ok env \<longleftrightarrow> (\<forall>k. malloc_ok env k) \<and> (\<forall>msg n. cl_status env msg n = CL_SUCCESS)"

text \<open>
  The input can be buffered: no line is longer than \<open>SSIZE_MAX\<close>, the largest length
  \<open>getline\<close> can report, and the size of a packed buffer of \<open>n\<close> slots for the longest
  line does not wrap around in \<open>size_t\<close>.
\<close>

definition fits :: "nat \<Rightarrow> string \<Rightarrow> bool" where
  "fits n input \<longleftrightarrow>
     (\<forall>l \<in> set (lines_of input).
        length l \<le> SSIZE_MAX \<and> n * stride_bytes_of (length (record_of l)) < 2 ^ 64)"

text \<open>A list cut into consecutive pieces of \<open>n\<close> elements, the last one possibly shorter.\<close>

function chunks :: "nat \<Rightarrow> 'a list \<Rightarrow> 'a list list" where
  "chunks k ls = (if k = 0 \<or> ls = [] then [] else take k ls # chunks k (drop k ls))"
  by pat_completeness auto

termination chunks
  by (relation "measure (\<lambda>(k, ls). length ls)") auto

declare chunks.simps [simp del]

text \<open>The batch the reader builds from the lines \<open>c\<close>, and its packed buffer.\<close>

definition batch_of :: "string list \<Rightarrow> batch" where
  "batch_of c = foldl store_line empty_batch c"

definition packed :: "string list \<Rightarrow> string" where
  "packed c = concat (map (slot_of (stride_bytes_of (max_len (batch_of c)))) (line_bufs (batch_of c)))"

text \<open>The text printed for the batch of the lines \<open>c\<close>, and the same text line by line.\<close>

definition batch_text :: "host_env \<Rightarrow> string list \<Rightarrow> string" where
  "batch_text env c =
     emit (map (engine env (packed c) (lens_host (batch_of c))
                  (msg_stride_of (stride_bytes_of (max_len (batch_of c)))) (length c))
               [0..<length c * 8])
          (length c)"

definition slot_lines :: "host_env \<Rightarrow> string list \<Rightarrow> string list" where
  "slot_lines env c =
     map (\<lambda>i. hex_line (map (\<lambda>j. engine env (packed c) (lens_host (batch_of c))
                                  (msg_stride_of (stride_bytes_of (max_len (batch_of c))))
                                  (length c) (i * 8 + j)) [0..<8]))
         [0..<length c]"

text \<open>
  The number of lines of a file: its newlines, and one more for a last line without a
  newline.
\<close>

definition line_count :: "string \<Rightarrow> nat" where
  "line_count cs =
     count_list cs (CHR 0x0A) + (if cs \<noteq> [] \<and> last cs \<noteq> CHR 0x0A then 1 else 0)"





text \<open>
  An environment in which every file opens, every allocation and every OpenCL call
  succeeds, the input ends with end-of-file and the device is \<open>dev\<close>.
\<close>

definition ideal_env :: "(string \<Rightarrow> u32 list \<Rightarrow> u32 \<Rightarrow> nat \<Rightarrow> nat \<Rightarrow> u32) \<Rightarrow> host_env" where
  "ideal_env dev =
     \<lparr>readable = (\<lambda>p. True), writable = (\<lambda>p. True), input_end = EndOfFile,
      platforms = [\<lparr>gpu_query = (CL_SUCCESS, 1), cpu_query = (CL_SUCCESS, 0),
                    all_query = (CL_SUCCESS, 1), list_query = CL_SUCCESS\<rparr>],
      cl_status = (\<lambda>msg n. CL_SUCCESS), kernel_source_ok = True,
      malloc_ok = (\<lambda>n. True), engine = dev\<rparr>"


section \<open>Lemmas about the reader\<close>

lemma lines_of_take_line:
  "cs \<noteq> [] \<Longrightarrow> lines_of cs = take_line cs # lines_of (drop (length (take_line cs)) cs)"
proof (induction cs)
  case Nil
  then show ?case by simp
next
  case (Cons c cs)
  show ?case
  proof (cases "c = CHR 0x0A")
    case True
    then show ?thesis by simp
  next
    case False
    show ?thesis
    proof (cases cs)
      case Nil
      with False show ?thesis by simp
    next
      case (Cons d ds)
      with Cons.IH have "lines_of cs = take_line cs # lines_of (drop (length (take_line cs)) cs)"
        by simp
      with False show ?thesis by simp
    qed
  qed
qed

lemma concat_lines_of: "concat (lines_of cs) = cs"
  by (induction cs) (auto split: list.splits)

lemma getline_lines_of:
  "getline s = (case lines_of (pending s) of [] \<Rightarrow> None
                | l # ls \<Rightarrow> Some (l, s\<lparr>pending := concat ls\<rparr>))"
proof (cases "pending s = []")
  case True
  then show ?thesis by (simp add: getline_def)
next
  case False
  have "drop (length (take_line (pending s))) (pending s) = concat (lines_of (drop (length (take_line (pending s))) (pending s)))"
    by (simp add: concat_lines_of)
  with False show ?thesis
    by (simp add: getline_def lines_of_take_line [OF False] Let_def)
qed

lemma lines_of_concat_tl: "lines_of cs = l # ls \<Longrightarrow> lines_of (concat ls) = ls"
  using lines_of_take_line [of cs] concat_lines_of [of "drop (length (take_line cs)) cs"]
  by (cases "cs = []") auto

lemma lines_of_concat_drop: "lines_of (concat (drop n (lines_of cs))) = drop n (lines_of cs)"
proof (induction n arbitrary: cs)
  case 0
  then show ?case by (simp add: concat_lines_of)
next
  case (Suc n)
  show ?case
  proof (cases "lines_of cs")
    case Nil
    then show ?thesis by simp
  next
    case (Cons l ls)
    then have "lines_of (concat ls) = ls" by (rule lines_of_concat_tl)
    with Suc [of "concat ls"] Cons show ?thesis by simp
  qed
qed

lemma strip_len_record_of: "take (strip_len line) line = record_of line"
  by (cases line rule: rev_cases) (auto simp: strip_len_def record_of_def Let_def)

lemma strip_len_length: "strip_len line = length (record_of line)"
  by (cases line rule: rev_cases) (auto simp: strip_len_def record_of_def Let_def)

lemma line_bufs_foldl:
  "line_bufs (foldl store_line b ls) = line_bufs b @ map record_of ls"
  by (induction ls arbitrary: b) (simp_all add: store_line_def Let_def strip_len_record_of)

lemma lens_host_foldl:
  "lens_host (foldl store_line b ls) = lens_host b @ map (\<lambda>l. of_nat (length (record_of l))) ls"
  by (induction ls arbitrary: b) (simp_all add: store_line_def Let_def strip_len_length)

lemma max_len_foldl_fold:
  "max_len (foldl store_line b ls) = fold max (map (\<lambda>l. length (record_of l)) ls) (max_len b)"
proof (induction ls arbitrary: b)
  case Nil
  then show ?case by simp
next
  case (Cons l ls)
  have "max_len (store_line b l) = max (length (record_of l)) (max_len b)"
    by (simp add: store_line_def Let_def strip_len_length max_def)
  with Cons [of "store_line b l"] show ?case by simp
qed

lemma max_len_foldl:
  "max_len (foldl store_line b ls) = Max (insert (max_len b) (length ` record_of ` set ls))"
  using Max.set_eq_fold [of "max_len b" "map (\<lambda>l. length (record_of l)) ls"]
  by (simp add: max_len_foldl_fold image_image)

lemma num_msgs_foldl: "num_msgs (foldl store_line b ls) = num_msgs b + length ls"
  by (simp add: num_msgs_def line_bufs_foldl)

lemma read_batch_Inr:
  "read_batch env n s b = Inr (b', s') \<Longrightarrow>
   b' = foldl store_line b (take (n - num_msgs b) (lines_of (pending s))) \<and>
   s' = s\<lparr>pending := concat (drop (n - num_msgs b) (lines_of (pending s)))\<rparr>"
proof (induction env n s b rule: read_batch.induct)
  case (1 env n s b)
  note eq = read_batch.simps [of env n s b]
  show ?case
  proof (cases "num_msgs b \<ge> n")
    case True
    with "1.prems" show ?thesis by (simp add: eq concat_lines_of)
  next
    case False
    show ?thesis
    proof (cases "lines_of (pending s)")
      case Nil
      then have "pending s = []" using concat_lines_of [of "pending s"] by simp
      with False "1.prems" Nil show ?thesis by (simp add: eq getline_def)
    next
      case (Cons l ls)
      let ?s1 = "s\<lparr>pending := concat ls\<rparr>"
      have g: "getline s = Some (l, ?s1)"
        by (simp add: getline_lines_of Cons)
      from False g "1.prems" have ok: "malloc_ok env (if strip_len l > 0 then strip_len l else 1)"
        by (auto simp: eq split: if_splits)
      with False g "1.prems" have rec: "read_batch env n ?s1 (store_line b l) = Inr (b', s')"
        by (simp add: eq)
      have ih: "b' = foldl store_line (store_line b l) (take (n - num_msgs (store_line b l)) (lines_of (pending ?s1))) \<and>
                s' = ?s1\<lparr>pending := concat (drop (n - num_msgs (store_line b l)) (lines_of (pending ?s1)))\<rparr>"
        using "1.IH" [OF _ g _ _ rec] False ok by simp
      have ls: "lines_of (concat ls) = ls"
        using lines_of_concat_tl [OF Cons] by simp
      have nm: "num_msgs (store_line b l) = Suc (num_msgs b)"
        by (simp add: store_line_def num_msgs_def Let_def)
      from False obtain k where k: "n - num_msgs b = Suc k"
        by (cases "n - num_msgs b") auto
      then have k': "n - Suc (num_msgs b) = k" by simp
      show ?thesis
        using ih by (simp add: ls nm k k' Cons)
    qed
  qed
qed

lemma read_batch_succeeds:
  "\<forall>k. malloc_ok env k \<Longrightarrow> \<exists>r. read_batch env n s b = Inr r"
proof (induction env n s b rule: read_batch.induct)
  case (1 env n s b)
  note eq = read_batch.simps [of env n s b]
  show ?case
  proof (cases "num_msgs b \<ge> n")
    case True
    then show ?thesis by (simp add: eq)
  next
    case False
    show ?thesis
    proof (cases "getline s")
      case None
      with False show ?thesis by (simp add: eq)
    next
      case (Some p)
      obtain l s1 where p: "p = (l, s1)" by (cases p)
      from "1.prems" have ok: "malloc_ok env (if strip_len l > 0 then strip_len l else 1)"
        by blast
      have "\<exists>r. read_batch env n s1 (store_line b l) = Inr r"
        using "1.IH" [OF _ Some _ _ "1.prems"] False p ok by simp
      with False Some p ok show ?thesis by (simp add: eq)
    qed
  qed
qed

lemma stride_bytes_of_align:
  assumes "m \<le> SSIZE_MAX"
  shows "stride_bytes_of m = align_up (max m 1) 64"
proof (cases "m = 0")
  case True
  then show ?thesis by (simp add: stride_bytes_of_def align_up_def)
next
  case False
  have "SSIZE_MAX = 9223372036854775807"
    by (simp add: SSIZE_MAX_def)
  moreover have "(2::nat) ^ 64 = 18446744073709551616"
    by simp
  ultimately have "m + 63 < 2 ^ 64"
    using assms by linarith
  moreover have "(m + 63) div 64 * 64 \<le> m + 63" by simp
  ultimately have "size_t (size_t (m + 63) div 64 * 64) = (m + 63) div 64 * 64"
    by (simp add: size_t_def)
  moreover from False have "max m 1 = m" "m + 64 - 1 = m + 63"
    by simp_all
  ultimately show ?thesis
    using False by (simp add: stride_bytes_of_def align_up_def)
qed

lemma align_up_64_least:
  "64 dvd align_up x 64 \<and> x \<le> align_up x 64 \<and> (\<forall>k. 64 dvd k \<and> x \<le> k \<longrightarrow> align_up x 64 \<le> k)"
  unfolding align_up_def by (auto simp: dvd_def)

lemma record_of_length_le: "length (record_of l) \<le> length l"
  by (simp add: record_of_def)

lemma length_le_concat: "l \<in> set xs \<Longrightarrow> length l \<le> length (concat xs)"
  by (induction xs) auto

lemma length_line_le: "l \<in> set (lines_of cs) \<Longrightarrow> length l \<le> length cs"
  using length_le_concat [of l "lines_of cs"] by (simp add: concat_lines_of)

lemma take_line_replicate:
  "c \<noteq> CHR 0x0A \<Longrightarrow> take_line (replicate n c @ CHR 0x0A # rest) = replicate n c @ [CHR 0x0A]"
  by (induction n) auto

lemma lines_of_terminated:
  "CHR 0x0A \<notin> set r \<Longrightarrow> lines_of (r @ CHR 0x0A # rest) = (r @ [CHR 0x0A]) # lines_of rest"
  by (induction r) auto

lemma lines_of_unterminated:
  "CHR 0x0A \<notin> set r \<Longrightarrow> lines_of r = (if r = [] then [] else [r])"
  by (induction r) (auto split: list.splits)

lemma record_of_terminated [simp]: "record_of (r @ [CHR 0x0A]) = r"
  by (simp add: record_of_def)

lemma read_batch_ok:
  assumes "\<forall>k. malloc_ok env k"
  shows "read_batch env n s b =
         Inr (foldl store_line b (take (n - num_msgs b) (lines_of (pending s))),
              s\<lparr>pending := concat (drop (n - num_msgs b) (lines_of (pending s)))\<rparr>)"
proof -
  from read_batch_succeeds [OF assms] obtain r where r: "read_batch env n s b = Inr r"
    by blast
  obtain b' s' where "r = (b', s')" by (cases r)
  with r read_batch_Inr [of env n s b b' s'] show ?thesis by simp
qed


lemma ideal_env_simps [simp]:
  "malloc_ok (ideal_env dev) k" "cl_status (ideal_env dev) msg n = CL_SUCCESS"
  "engine (ideal_env dev) = dev" "kernel_source_ok (ideal_env dev)"
  "readable (ideal_env dev) p" "writable (ideal_env dev) p" "input_end (ideal_env dev) = EndOfFile"
  by (simp_all add: ideal_env_def)


section \<open>Lemmas about lines, records and the printed digests\<close>

lemma take_line_newline_iff:
  "CHR 0x0A \<notin> set (butlast (take_line cs)) \<and>
   (take_line cs = cs \<or> take_line cs \<noteq> [] \<and> last (take_line cs) = CHR 0x0A)"
  by (induction cs) auto

lemma hexdig_nth: "hexdig ! n = hex_digit n"
  by (simp add: hexdig_def hex_digit_def)

lemma mask_ff: "(w :: u32) AND 0xff = take_bit 8 w"
  by (simp add: take_bit_eq_mask mask_eq_exp_minus_1)

lemma mask_f: "(w :: u32) AND 0xF = take_bit 4 w"
  by (simp add: take_bit_eq_mask mask_eq_exp_minus_1)

lemma byte_of_word:
  "unat (ucast (drop_bit k (v :: u32) AND 0xff) :: byte) = unat v div 2 ^ k mod 256"
proof -
  have "unat (ucast (take_bit 8 (drop_bit k v)) :: byte) = take_bit 8 (take_bit 8 (drop_bit k (unat v)))"
    by (simp add: unsigned_ucast_eq unsigned_take_bit_eq unat_drop_bit_eq)
  also have "\<dots> = unat v div 2 ^ k mod 256"
    by (simp add: take_bit_eq_mod drop_bit_eq_div)
  finally show ?thesis
    by (simp only: mask_ff)
qed

lemma byte_of_word0:
  "unat (ucast ((v :: u32) AND 0xff) :: byte) = unat v mod 256"
  using byte_of_word [of 0 v] by simp

lemma hex_of_byte:
  "[hexdig ! unat (drop_bit 4 (ucast (b :: byte) :: u32)), hexdig ! unat ((ucast b :: u32) AND 0xF)]
   = hex_byte (unat b)"
proof -
  have b: "unat b < 256" using unsigned_less [of b] by simp
  have "unat (drop_bit 4 (ucast b :: u32)) = drop_bit 4 (take_bit 32 (unat b))"
    by (simp add: unat_drop_bit_eq unsigned_ucast_eq)
  with b have hi: "unat (drop_bit 4 (ucast b :: u32)) = unat b div 16"
    by (simp add: drop_bit_eq_div take_bit_eq_mod)
  have "unat (take_bit 4 (ucast b :: u32)) = take_bit 4 (take_bit 32 (unat b))"
    by (simp add: unsigned_take_bit_eq unsigned_ucast_eq)
  with b have "unat (take_bit 4 (ucast b :: u32)) = unat b mod 16"
    by (simp add: take_bit_eq_mod)
  then have lo: "unat ((ucast b :: u32) AND 0xF) = unat b mod 16"
    by (simp only: mask_f)
  show ?thesis
    by (simp only: hi lo hex_byte_def hexdig_nth)
qed

lemma digest_to_hex_bytes:
  "digest_to_hex digest = concat (map (\<lambda>i. hex_byte (unat (digest ! i))) [0..<32])"
  unfolding digest_to_hex_def Let_def hex_of_byte ..

lemma word_bytes:
  "map unat [ucast (drop_bit 24 v AND 0xff), ucast (drop_bit 16 v AND 0xff),
             ucast (drop_bit 8 v AND 0xff), ucast ((v :: u32) AND 0xff) :: byte] = be_bytes v"
  apply (simp only: list.map byte_of_word byte_of_word0 be_bytes_def)
  apply (simp only: unat_drop_bit_eq)
  apply (simp add: drop_bit_eq_div)
  done

lemma length_digest_of_words: "length (digest_of_words d) = 32"
  by (simp add: digest_of_words_def Let_def length_concat upt_rec)

lemma digest_of_words_bytes:
  "map (\<lambda>i. unat (digest_of_words d ! i)) [0..<32] = concat (map (\<lambda>j. be_bytes (d ! j)) [0..<8])"
proof -
  have "map (\<lambda>i. unat (digest_of_words d ! i)) [0..<length (digest_of_words d)]
        = map unat (map (\<lambda>i. digest_of_words d ! i) [0..<length (digest_of_words d)])"
    by (simp only: map_map comp_def)
  also have "\<dots> = map unat (digest_of_words d)"
    by (simp only: map_nth)
  also have "\<dots> = concat (map (\<lambda>j. be_bytes (d ! j)) [0..<8])"
    by (simp only: digest_of_words_def Let_def map_concat map_map comp_def word_bytes)
  finally show ?thesis
    by (simp only: length_digest_of_words)
qed

lemma digest_line:
  "digest_to_hex (digest_of_words d) @ [CHR 0x0A] = hex_line (map (\<lambda>j. d ! j) [0..<8])"
proof -
  have "digest_to_hex (digest_of_words d)
        = concat (map hex_byte (map (\<lambda>i. unat (digest_of_words d ! i)) [0..<32]))"
    by (simp add: digest_to_hex_bytes comp_def)
  then show ?thesis
    by (simp only: digest_of_words_bytes hex_line_def map_map comp_def)
qed

lemma hex_digit_range: "n < 16 \<Longrightarrow> hex_digit n \<in> set ''0123456789abcdef''"
  using nth_mem [of n "''0123456789abcdef''"] by (simp add: hex_digit_def)

lemma hex_byte_props: "n < 256 \<Longrightarrow> length (hex_byte n) = 2 \<and> set (hex_byte n) \<subseteq> set ''0123456789abcdef''"
  using hex_digit_range [of "n div 16"] hex_digit_range [of "n mod 16"]
  by (simp add: hex_byte_def)

lemma be_bytes_props: "length (be_bytes w) = 4 \<and> (\<forall>n \<in> set (be_bytes w). n < 256)"
  by (simp add: be_bytes_def)

lemma length_hex_bytes: "length (concat (map hex_byte bs)) = 2 * length bs"
  by (induction bs) (simp_all add: hex_byte_def)

lemma hex_line_props:
  "length (hex_line ws) = 8 * length ws + 1 \<and>
   set (butlast (hex_line ws)) \<subseteq> set ''0123456789abcdef'' \<and> last (hex_line ws) = CHR 0x0A"
proof -
  let ?bs = "concat (map be_bytes ws)"
  have len: "length ?bs = 4 * length ws"
    by (induction ws) (simp_all add: be_bytes_def)
  have small: "\<forall>n \<in> set ?bs. n < 256"
    using be_bytes_props by auto
  have "length (concat (map hex_byte ?bs)) = 2 * length ?bs"
    by (rule length_hex_bytes)
  moreover have "set (concat (map hex_byte ?bs)) \<subseteq> set ''0123456789abcdef''"
    using small hex_byte_props by fastforce
  ultimately show ?thesis
    by (simp add: hex_line_def len)
qed

lemma read_back_Inr:
  "read_back env bi n buf_out = Inr digests_host \<Longrightarrow> digests_host = map buf_out [0..<n * 8]"
  by (auto simp: read_back_def split: option.splits if_splits)

lemma take_drop_block:
  "\<forall>x \<in> set xs. length (f x) = m \<Longrightarrow> i < length xs \<Longrightarrow>
   take m (drop (m * i) (concat (map f xs))) = f (xs ! i)"
proof (induction xs arbitrary: i)
  case Nil
  then show ?case by simp
next
  case (Cons x xs)
  show ?case
  proof (cases i)
    case 0
    with Cons.prems show ?thesis by simp
  next
    case (Suc k)
    with Cons.prems have "take m (drop (m * k) (concat (map f xs))) = f (xs ! k)"
      using Cons.IH [of k] by simp
    moreover from Cons.prems have "length (f x) = m" by simp
    ultimately show ?thesis using Suc by simp
  qed
qed

lemma emit_slots:
  assumes "digests_host = map buf_out [0..<n * 8]"
  shows "emit digests_host n = concat (map (\<lambda>i. hex_line (map (\<lambda>j. buf_out (i * 8 + j)) [0..<8])) [0..<n])"
proof -
  have "\<And>k. k \<in> set [0..<n] \<Longrightarrow>
          hex_line (map (\<lambda>j. drop (k * 8) digests_host ! j) [0..<8])
          = hex_line (map (\<lambda>j. buf_out (k * 8 + j)) [0..<8])"
  proof -
    fix k assume "k \<in> set [0..<n]"
    then have k: "k < n" by simp
    have "\<And>j. j \<in> set [0..<8] \<Longrightarrow> drop (k * 8) digests_host ! j = buf_out (k * 8 + j)"
    proof -
      fix j :: nat assume "j \<in> set [0..<8]"
      then have "j < 8" by simp
      with k have "k * 8 + j < n * 8" by simp
      then show "drop (k * 8) digests_host ! j = buf_out (k * 8 + j)"
        using assms by simp
    qed
    then have "map (\<lambda>j. drop (k * 8) digests_host ! j) [0..<8] = map (\<lambda>j. buf_out (k * 8 + j)) [0..<8]"
      by (rule map_cong [OF refl])
    then show "hex_line (map (\<lambda>j. drop (k * 8) digests_host ! j) [0..<8])
               = hex_line (map (\<lambda>j. buf_out (k * 8 + j)) [0..<8])"
      by (rule arg_cong)
  qed
  then have "map (\<lambda>k. hex_line (map (\<lambda>j. drop (k * 8) digests_host ! j) [0..<8])) [0..<n]
             = map (\<lambda>i. hex_line (map (\<lambda>j. buf_out (i * 8 + j)) [0..<8])) [0..<n]"
    by (rule map_cong [OF refl])
  then show ?thesis
    by (simp only: emit_def digest_line)
qed

section \<open>Lemmas about the packed buffer\<close>

lemma length_slot_of: "length r \<le> S \<Longrightarrow> length (slot_of S r) = S"
proof -
  assume a: "length r \<le> S"
  have "length r mod 2 ^ 32 \<le> length r" by simp
  with a show ?thesis by (simp add: slot_of_def)
qed

lemma length_concat_slots:
  "\<forall>r \<in> set rs. length r \<le> S \<Longrightarrow> length (concat (map (slot_of S) rs)) = length rs * S"
  by (induction rs) (simp_all add: length_slot_of)

lemma fold_upt_Suc: "fold f [0..<Suc k] x = f k (fold f [0..<k] x)"
  by simp

lemma copy_lines_prefix:
  assumes lens: "lens_host b = map (\<lambda>r. of_nat (length r)) (line_bufs b)"
      and le: "\<forall>r \<in> set (line_bufs b). length r \<le> S"
      and fit: "num_msgs b * S < 2 ^ 64"
      and k: "k \<le> num_msgs b"
  shows "fold (\<lambda>k m. Option.bind m (copy_line b S k)) [0..<k]
              (Some (replicate (num_msgs b * S) (CHR 0x00)))
         = Some (concat (map (slot_of S) (take k (line_bufs b)))
                 @ replicate ((num_msgs b - k) * S) (CHR 0x00))"
  using k
proof (induction k)
  case 0
  then show ?case by simp
next
  case (Suc k)
  let ?n = "num_msgs b"
  let ?rs = "line_bufs b"
  let ?A = "concat (map (slot_of S) (take k ?rs))"
  let ?r = "?rs ! k"
  let ?len = "length ?r mod 2 ^ 32"
  from Suc.prems have k: "k < ?n" by simp
  then have kl: "k < length ?rs" by (simp add: num_msgs_def)
  have rin: "?r \<in> set ?rs" using kl by simp
  have rS: "length ?r \<le> S" using le rin by blast
  have lenle: "?len \<le> length ?r" by simp
  have lenk: "unat (lens_host b ! k) = ?len"
    using kl by (simp add: lens unat_of_nat)
  have lA: "length ?A = k * S"
    using length_concat_slots [of "take k ?rs" S] le kl
    by (auto dest: in_set_takeD)
  from k have "Suc k \<le> ?n" by simp
  then have "Suc k * S \<le> ?n * S" by (rule mult_le_mono1)
  then have kS: "k * S + S \<le> ?n * S" by simp
  with fit have "k * S < 2 ^ 64" by linarith
  then have off: "size_t (k * S) = k * S" by (simp add: size_t_def)
  have split: "(?n - k) * S = S + (?n - Suc k) * S"
  proof -
    from k have "?n - k = Suc (?n - Suc k)" by simp
    then have "(?n - k) * S = Suc (?n - Suc k) * S" by (rule arg_cong)
    then show ?thesis by simp
  qed
  have ih: "fold (\<lambda>k m. Option.bind m (copy_line b S k)) [0..<k]
              (Some (replicate (?n * S) (CHR 0x00)))
            = Some (?A @ replicate ((?n - k) * S) (CHR 0x00))"
    using Suc.IH k by simp
  have step: "copy_line b S k (?A @ replicate ((?n - k) * S) (CHR 0x00))
              = Some (?A @ slot_of S ?r @ replicate ((?n - Suc k) * S) (CHR 0x00))"
  proof (cases "?len > 0")
    case True
    have inb: "k * S + ?len \<le> length (?A @ replicate ((?n - k) * S) (CHR 0x00))"
      using lA kS rS lenle k by (simp add: split)
    have "drop (k * S + ?len) (?A @ replicate ((?n - k) * S) (CHR 0x00))
          = replicate (S - ?len) (CHR 0x00) @ replicate ((?n - Suc k) * S) (CHR 0x00)"
      using lA rS lenle by (simp add: split replicate_add [symmetric])
    moreover have "take (k * S) (?A @ replicate ((?n - k) * S) (CHR 0x00)) = ?A"
      using lA by simp
    ultimately show ?thesis
      using True inb lenle
      by (simp add: copy_line_def lenk off memcpy_def slot_of_def Let_def)
  next
    case False
    then have z: "?len = 0" by simp
    have "replicate ((?n - k) * S) (CHR 0x00)
          = replicate S (CHR 0x00) @ replicate ((?n - Suc k) * S) (CHR 0x00)"
      by (simp add: split replicate_add)
    then show ?thesis
      using z by (simp add: copy_line_def lenk slot_of_def Let_def)
  qed
  have "take (Suc k) ?rs = take k ?rs @ [?r]"
    using kl by (simp add: take_Suc_conv_app_nth)
  then have "concat (map (slot_of S) (take (Suc k) ?rs)) = ?A @ slot_of S ?r"
    by simp
  with ih step show ?case
    by (simp only: fold_upt_Suc Option.bind.simps append_assoc)
qed

lemma pack_closed:
  assumes lens: "lens_host b = map (\<lambda>r. of_nat (length r)) (line_bufs b)"
      and le: "\<forall>r \<in> set (line_bufs b). length r \<le> stride_bytes_of (max_len b)"
      and fit: "num_msgs b * stride_bytes_of (max_len b) < 2 ^ 64"
      and mem: "malloc_ok env (num_msgs b * stride_bytes_of (max_len b))"
  shows "pack env b = Inr (concat (map (slot_of (stride_bytes_of (max_len b))) (line_bufs b)))"
proof -
  let ?S = "stride_bytes_of (max_len b)"
  have t: "total_bytes_of (num_msgs b) ?S = num_msgs b * ?S"
    using fit by (simp add: total_bytes_of_def size_t_def)
  have "copy_lines b ?S (replicate (num_msgs b * ?S) (CHR 0x00))
        = Some (concat (map (slot_of ?S) (line_bufs b)))"
    using copy_lines_prefix [OF lens le fit, of "num_msgs b"]
    by (simp add: copy_lines_def num_msgs_def)
  with mem show ?thesis
    by (simp add: pack_def Let_def t)
qed

lemma read_batch_facts:
  assumes "read_batch env n s empty_batch = Inr (b, s')"
  shows "line_bufs b = map record_of (take n (lines_of (pending s)))"
    and "lens_host b = map (\<lambda>r. of_nat (length r)) (line_bufs b)"
    and "max_len b = Max (insert 0 (length ` set (line_bufs b)))"
    and "pending s' = concat (drop n (lines_of (pending s)))"
proof -
  from read_batch_Inr [OF assms]
  have b: "b = foldl store_line empty_batch (take n (lines_of (pending s)))"
    and s': "s' = s\<lparr>pending := concat (drop n (lines_of (pending s)))\<rparr>"
    by (simp_all add: num_msgs_def empty_batch_def)
  show "line_bufs b = map record_of (take n (lines_of (pending s)))"
    by (simp add: b line_bufs_foldl empty_batch_def)
  show "lens_host b = map (\<lambda>r. of_nat (length r)) (line_bufs b)"
    by (simp add: b line_bufs_foldl lens_host_foldl empty_batch_def)
  show "max_len b = Max (insert 0 (length ` set (line_bufs b)))"
    by (simp add: b max_len_foldl line_bufs_foldl empty_batch_def)
  show "pending s' = concat (drop n (lines_of (pending s)))"
    by (simp add: s')
qed

lemma max_len_bounds:
  assumes "max_len b = Max (insert 0 (length ` set (line_bufs b)))"
  shows "\<forall>r \<in> set (line_bufs b). length r \<le> max_len b"
    and "(\<forall>r \<in> set (line_bufs b). length r \<le> K) \<Longrightarrow> max_len b \<le> K"
proof -
  show "\<forall>r \<in> set (line_bufs b). length r \<le> max_len b"
    unfolding assms by (auto intro: Max_ge)
  show "(\<forall>r \<in> set (line_bufs b). length r \<le> K) \<Longrightarrow> max_len b \<le> K"
    unfolding assms by (subst Max_le_iff) auto
qed

lemma stride_bytes_of_bounds:
  assumes "m < 2 ^ 32"
  shows "m \<le> stride_bytes_of m" and "stride_bytes_of m \<le> 2 ^ 32" and "64 dvd stride_bytes_of m"
    and "0 < stride_bytes_of m"
proof -
  have p: "(2::nat) ^ 32 = 4294967296" by simp
  from assms have "m \<le> SSIZE_MAX" by (simp add: SSIZE_MAX_def)
  then have s: "stride_bytes_of m = align_up (max m 1) 64" by (rule stride_bytes_of_align)
  from align_up_64_least [of "max m 1"] s
  show "m \<le> stride_bytes_of m" "64 dvd stride_bytes_of m" "0 < stride_bytes_of m" by auto
  have "(64::nat) dvd 2 ^ 32" unfolding p by presburger
  moreover from assms have "max m 1 \<le> 2 ^ 32" by simp
  ultimately show "stride_bytes_of m \<le> 2 ^ 32"
    using align_up_64_least [of "max m 1"] s by auto
qed

section \<open>Lemmas about the batch loop and the whole run\<close>

lemma check_all_ok: "env_ok env \<Longrightarrow> check_all env n msgs = None"
  by (induction msgs) (simp_all add: env_ok_def CHECK_CL_def)

lemma batch_of_facts:
  "line_bufs (batch_of c) = map record_of c"
  "lens_host (batch_of c) = map (\<lambda>r. of_nat (length r)) (line_bufs (batch_of c))"
  "max_len (batch_of c) = Max (insert 0 (length ` set (line_bufs (batch_of c))))"
  "num_msgs (batch_of c) = length c"
  by (simp_all add: batch_of_def line_bufs_foldl lens_host_foldl max_len_foldl num_msgs_def
        empty_batch_def)

lemma batch_of_fits:
  assumes c: "c \<noteq> []" and len: "length c \<le> n"
      and f: "\<forall>l \<in> set c. length l \<le> SSIZE_MAX \<and> n * stride_bytes_of (length (record_of l)) < 2 ^ 64"
  shows "\<forall>r \<in> set (line_bufs (batch_of c)). length r \<le> stride_bytes_of (max_len (batch_of c))"
    and "num_msgs (batch_of c) * stride_bytes_of (max_len (batch_of c)) < 2 ^ 64"
proof -
  let ?b = "batch_of c"
  let ?M = "length ` set (line_bufs ?b)"
  have fin: "finite ?M" by simp
  from c have ne: "?M \<noteq> {}" by (simp add: batch_of_facts(1))
  have m: "max_len ?b = Max ?M"
    using ne by (simp add: batch_of_facts(3))
  from Max_in [OF fin ne] obtain l where l: "l \<in> set c" "max_len ?b = length (record_of l)"
    unfolding m by (auto simp: batch_of_facts(1))
  from f l(1) have lb: "length l \<le> SSIZE_MAX" and nf: "n * stride_bytes_of (max_len ?b) < 2 ^ 64"
    by (auto simp: l(2))
  from lb record_of_length_le [of l] have "max_len ?b \<le> SSIZE_MAX"
    by (simp add: l(2))
  then have "stride_bytes_of (max_len ?b) = align_up (max (max_len ?b) 1) 64"
    by (rule stride_bytes_of_align)
  with align_up_64_least [of "max (max_len ?b) 1"] have ge: "max_len ?b \<le> stride_bytes_of (max_len ?b)"
    by simp
  show "\<forall>r \<in> set (line_bufs ?b). length r \<le> stride_bytes_of (max_len ?b)"
    using max_len_bounds(1) [OF batch_of_facts(3)] ge by fastforce
  from len have "num_msgs ?b \<le> n"
    by (simp add: batch_of_facts(4))
  then have "num_msgs ?b * stride_bytes_of (max_len ?b) \<le> n * stride_bytes_of (max_len ?b)"
    by (rule mult_le_mono1)
  then show "num_msgs ?b * stride_bytes_of (max_len ?b) < 2 ^ 64"
    using nf by (rule le_less_trans)
qed

lemma pack_batch_of:
  assumes "env_ok env" "c \<noteq> []" "length c \<le> n"
      and "\<forall>l \<in> set c. length l \<le> SSIZE_MAX \<and> n * stride_bytes_of (length (record_of l)) < 2 ^ 64"
  shows "pack env (batch_of c) = Inr (packed c)"
  unfolding packed_def
  using batch_of_facts(2) batch_of_fits [OF assms(2-4)]
proof (rule pack_closed)
  from assms(1) show "malloc_ok env (num_msgs (batch_of c) * stride_bytes_of (max_len (batch_of c)))"
    by (simp add: env_ok_def)
qed

lemma launch_batch_ok:
  assumes "env_ok env" "c \<noteq> []" "length c \<le> n"
      and "\<forall>l \<in> set c. length l \<le> SSIZE_MAX \<and> n * stride_bytes_of (length (record_of l)) < 2 ^ 64"
  shows "launch_batch env bi (batch_of c)
         = Inr (engine env (packed c) (lens_host (batch_of c))
                  (msg_stride_of (stride_bytes_of (max_len (batch_of c)))) (length c))"
  by (simp add: launch_batch_def pack_batch_of [OF assms] check_all_ok [OF assms(1)]
        batch_of_facts(4) del: check_all.simps)

lemma read_back_ok:
  "env_ok env \<Longrightarrow> read_back env bi n buf_out = Inr (map buf_out [0..<n * 8])"
  by (simp add: read_back_def check_all_ok del: check_all.simps) (simp add: env_ok_def)

lemma chunks_Nil [simp]: "chunks n [] = []"
  by (simp add: chunks.simps)

lemma chunks_Cons: "0 < n \<Longrightarrow> xs \<noteq> [] \<Longrightarrow> chunks n xs = take n xs # chunks n (drop n xs)"
  by (subst chunks.simps) simp

lemma fits_drop: "fits n input \<Longrightarrow> fits n (concat (drop k (lines_of input)))"
  by (auto simp: fits_def lines_of_concat_drop dest: in_set_dropD)

lemma batch_loop_closed:
  assumes "env_ok env" and "0 < n"
  shows "fits n (pending (fin st)) \<Longrightarrow>
         batch_loop env n st
         = (None, st\<lparr>fin := (fin st)\<lparr>pending := []\<rparr>,
                     fout := fout st @ concat (map (batch_text env) (chunks n (lines_of (pending (fin st))))),
                     batch_index := batch_index st + length (chunks n (lines_of (pending (fin st)))),
                     launches := launches st @ map length (chunks n (lines_of (pending (fin st))))\<rparr>)"
proof (induction "length (lines_of (pending (fin st)))" arbitrary: st rule: less_induct)
  case less
  let ?L = "lines_of (pending (fin st))"
  from assms(1) have mall: "\<forall>k. malloc_ok env k" by (simp add: env_ok_def)
  have rb: "read_batch env n (fin st) empty_batch
            = Inr (batch_of (take n ?L), (fin st)\<lparr>pending := concat (drop n ?L)\<rparr>)"
    by (simp add: read_batch_ok [OF mall] batch_of_def num_msgs_def empty_batch_def)
  show ?case
  proof (cases "?L = []")
    case True
    then show ?thesis
      by (subst batch_loop.simps) (simp add: rb batch_of_facts(4))
  next
    case False
    let ?c = "take n ?L"
    let ?st' = "st\<lparr>fin := (fin st)\<lparr>pending := concat (drop n ?L)\<rparr>,
                   fout := fout st @ batch_text env ?c,
                   batch_index := batch_index st + 1,
                   launches := launches st @ [length ?c]\<rparr>"
    from False assms(2) have c: "?c \<noteq> []" by simp
    have len: "length ?c \<le> n" by simp
    have f: "\<forall>l \<in> set ?c. length l \<le> SSIZE_MAX \<and> n * stride_bytes_of (length (record_of l)) < 2 ^ 64"
      using less.prems by (auto simp: fits_def dest: in_set_takeD)
    have nm: "num_msgs (batch_of ?c) = length ?c" by (rule batch_of_facts(4))
    have nz: "num_msgs (batch_of ?c) \<noteq> 0"
      using c by (simp add: nm)
    have step: "batch_loop env n st = batch_loop env n ?st'"
      apply (subst batch_loop.simps)
      apply (simp only: rb sum.case prod.case nz if_False launch_batch_ok [OF assms(1) c len f]
          read_back_ok [OF assms(1)])
      apply (simp add: batch_text_def nm)
      done
    have L': "lines_of (pending (fin ?st')) = drop n ?L"
      by (simp add: lines_of_concat_drop)
    have "length (drop n ?L) < length ?L"
      using False assms(2) by simp
    then have "length (lines_of (pending (fin ?st'))) < length ?L"
      by (simp only: L')
    moreover have "fits n (pending (fin ?st'))"
      using fits_drop [OF less.prems] by simp
    ultimately have "batch_loop env n ?st'
      = (None, ?st'\<lparr>fin := (fin ?st')\<lparr>pending := []\<rparr>,
                     fout := fout ?st' @ concat (map (batch_text env) (chunks n (lines_of (pending (fin ?st'))))),
                     batch_index := batch_index ?st' + length (chunks n (lines_of (pending (fin ?st')))),
                     launches := launches ?st' @ map length (chunks n (lines_of (pending (fin ?st'))))\<rparr>)"
      by (rule less.hyps)
    then show ?thesis
      unfolding step L'
      by (simp add: chunks_Cons [OF assms(2) False])
  qed
qed

lemma length_lines_of: "length (lines_of cs) = line_count cs"
proof (induction cs)
  case Nil
  then show ?case by (simp add: line_count_def)
next
  case (Cons c cs)
  show ?case
  proof (cases cs)
    case Nil
    then show ?thesis by (simp add: line_count_def)
  next
    case (Cons d ds)
    then have "lines_of cs \<noteq> []" by (auto split: list.splits)
    then obtain l ls where "lines_of cs = l # ls" by (cases "lines_of cs") auto
    with Cons.IH Cons show ?thesis
      by (simp add: line_count_def)
  qed
qed

lemma concat_chunks: "concat (chunks n xs) = (if n = 0 then [] else xs)"
proof (induction n xs rule: chunks.induct)
  case (1 n xs)
  show ?case
  proof (cases "n = 0 \<or> xs = []")
    case True
    then show ?thesis by (auto simp: chunks.simps)
  next
    case False
    with 1 show ?thesis by (subst chunks.simps) simp
  qed
qed


lemma chunks_multiple: "0 < n \<Longrightarrow> length xs = m * n \<Longrightarrow> map length (chunks n xs) = replicate m n"
proof (induction m arbitrary: xs)
  case 0
  then show ?case by simp
next
  case (Suc m)
  then have ne: "xs \<noteq> []" by auto
  from Suc.prems have "length (drop n xs) = m * n" by simp
  with Suc.IH Suc.prems(1) have "map length (chunks n (drop n xs)) = replicate m n" by blast
  moreover from Suc.prems have "length (take n xs) = n" by simp
  ultimately show ?case
    by (simp add: chunks_Cons [OF Suc.prems(1) ne])
qed

lemma length_batch_text: "length (batch_text env c) = 65 * length c"
proof -
  have "length (batch_text env c)
        = length (concat (map (\<lambda>i. hex_line (map (\<lambda>j.
            engine env (packed c) (lens_host (batch_of c))
              (msg_stride_of (stride_bytes_of (max_len (batch_of c)))) (length c) (i * 8 + j)) [0..<8]))
            [0..<length c]))"
    unfolding batch_text_def by (subst emit_slots [OF refl]) simp
  also have "\<dots> = 65 * length c"
    by (simp add: length_concat comp_def hex_line_props sum_list_triv)
  finally show ?thesis .
qed

lemma chunks_sizes:
  "0 < n \<Longrightarrow>
   map length (chunks n xs)
   = replicate (length xs div n) n @ (if length xs mod n = 0 then [] else [length xs mod n])"
proof (induction "length xs" arbitrary: xs rule: less_induct)
  case less
  show ?case
  proof (cases "xs = []")
    case True
    then show ?thesis by simp
  next
    case False
    note step = chunks_Cons [OF less.prems False]
    show ?thesis
    proof (cases "length xs < n")
      case True
      with False show ?thesis by (simp add: step)
    next
      case False
      then have ge: "n \<le> length xs" by simp
      have "length (drop n xs) < length xs"
        using \<open>xs \<noteq> []\<close> less.prems by simp
      then have ih: "map length (chunks n (drop n xs))
          = replicate (length (drop n xs) div n) n
            @ (if length (drop n xs) mod n = 0 then [] else [length (drop n xs) mod n])"
        using less.prems by (rule less.hyps)
      have d: "length xs div n = Suc ((length xs - n) div n)"
        using ge less.prems by (simp add: le_div_geq)
      have m: "(length xs - n) mod n = length xs mod n"
        using ge by (simp add: le_mod_geq)
      from ge show ?thesis
        by (simp add: step ih d m)
    qed
  qed
qed

lemma lines_of_concat_terminated:
  "\<forall>l \<in> set ls. \<exists>r. l = r @ [CHR 0x0A] \<and> CHR 0x0A \<notin> set r \<Longrightarrow> lines_of (concat ls) = ls"
proof (induction ls)
  case Nil
  then show ?case by simp
next
  case (Cons l ls)
  then obtain r where "l = r @ [CHR 0x0A]" "CHR 0x0A \<notin> set r" by auto
  with Cons show ?case
    by (simp add: lines_of_terminated)
qed

lemma hex_line_terminated: "\<exists>r. hex_line ws = r @ [CHR 0x0A] \<and> CHR 0x0A \<notin> set r"
proof -
  from hex_line_props [of ws] have "set (butlast (hex_line ws)) \<subseteq> set ''0123456789abcdef''"
    and "last (hex_line ws) = CHR 0x0A" and "hex_line ws \<noteq> []"
    by auto
  then have "hex_line ws = butlast (hex_line ws) @ [CHR 0x0A]"
    and "CHR 0x0A \<notin> set (butlast (hex_line ws))"
    using append_butlast_last_id [of "hex_line ws"] by auto
  then show ?thesis by blast
qed

lemma batch_text_lines: "batch_text env c = concat (slot_lines env c)"
  unfolding batch_text_def slot_lines_def by (rule emit_slots [OF refl])

lemma lines_of_output:
  "lines_of (concat (map (batch_text env) cs)) = concat (map (slot_lines env) cs)"
proof -
  have "concat (map (batch_text env) cs) = concat (concat (map (slot_lines env) cs))"
    by (induction cs) (simp_all add: batch_text_lines)
  moreover have "\<forall>l \<in> set (concat (map (slot_lines env) cs)). \<exists>r. l = r @ [CHR 0x0A] \<and> CHR 0x0A \<notin> set r"
    using hex_line_terminated by (auto simp: slot_lines_def)
  ultimately show ?thesis
    by (simp add: lines_of_concat_terminated)
qed

lemma length_concat_slot_lines:
  "length (concat (map (slot_lines env) cs)) = length (concat cs)"
  by (induction cs) (simp_all add: slot_lines_def)

lemma main_closed:
  assumes "env_ok env" and "0 < n" and "bootstrap env n = None"
      and "fs inp = Some content" and "readable env inp" and "writable env out"
      and "fits n (if inp = out then [] else content)"
  shows "main env n [prog, inp, out] fs
         = \<lparr>status = Exited 0,
            files_after = fs(out \<mapsto> concat (map (batch_text env)
                                  (chunks n (lines_of (if inp = out then [] else content))))),
            launched = map length (chunks n (lines_of (if inp = out then [] else content)))\<rparr>"
proof -
  let ?input = "if inp = out then [] else content"
  let ?st = "\<lparr>fin = \<lparr>pending = ?input, at_end = input_end env\<rparr>, fout = [], batch_index = 0,
              launches = []\<rparr>"
  have "fits n (pending (fin ?st))" using assms(7) by simp
  from batch_loop_closed [OF assms(1,2) this]
  have bl: "batch_loop env n ?st
        = (None, ?st\<lparr>fin := (fin ?st)\<lparr>pending := []\<rparr>,
                     fout := fout ?st @ concat (map (batch_text env) (chunks n (lines_of ?input))),
                     batch_index := batch_index ?st + length (chunks n (lines_of ?input)),
                     launches := launches ?st @ map length (chunks n (lines_of ?input))\<rparr>)"
    by simp
  have in_eq: "(case (fs(out \<mapsto> [])) inp of None \<Rightarrow> [] | Some c \<Rightarrow> c) = ?input"
    using assms(4) by simp
  show ?thesis
    using assms(3-6)
    by (simp add: main_def Let_def in_eq bl del: fun_upd_apply)
qed

lemma ideal_env_ok: "env_ok (ideal_env dev)"
  by (simp add: env_ok_def)

lemma ideal_env_platforms:
  "platforms (ideal_env dev)
   = [\<lparr>gpu_query = (CL_SUCCESS, 1), cpu_query = (CL_SUCCESS, 0),
       all_query = (CL_SUCCESS, 1), list_query = CL_SUCCESS\<rparr>]"
  by (simp add: ideal_env_def)

lemma ideal_env_bootstrap: "bootstrap (ideal_env dev) n = None"
  by (simp add: bootstrap_def check_all_ok [OF ideal_env_ok] ideal_env_platforms Let_def
        CHECK_CL_def CL_SUCCESS_def CL_DEVICE_NOT_FOUND_def del: check_all.simps)

section \<open>Lemmas about the position of an output line\<close>

lemma concat_chunks_nth:
  assumes n: "0 < n" and len: "\<And>c. length (F c) = length c"
  shows "g < length xs \<Longrightarrow>
         concat (map F (chunks n xs)) ! g = F (take n (drop (g div n * n) xs)) ! (g mod n)"
proof (induction "length xs" arbitrary: xs g rule: less_induct)
  case less
  then have ne: "xs \<noteq> []" by auto
  note step = chunks_Cons [OF n ne]
  show ?case
  proof (cases "g < n")
    case True
    with less.prems have "g < length (F (take n xs))" by (simp add: len)
    with True show ?thesis by (simp add: step nth_append)
  next
    case False
    then have ge: "n \<le> g" by simp
    with less.prems have lt: "length (take n xs) = n" by simp
    have sm: "length (drop n xs) < length xs" using ne n by simp
    have g': "g - n < length (drop n xs)" using less.prems ge by simp
    have ih: "concat (map F (chunks n (drop n xs))) ! (g - n)
              = F (take n (drop ((g - n) div n * n) (drop n xs))) ! ((g - n) mod n)"
      using sm g' by (rule less.hyps)
    have d: "g div n = Suc ((g - n) div n)" using ge n by (simp add: le_div_geq)
    have m: "(g - n) mod n = g mod n" using ge by (simp add: le_mod_geq)
    have "length (F (take n xs)) = n" by (simp only: len lt)
    then have "concat (map F (chunks n xs)) ! g = concat (map F (chunks n (drop n xs))) ! (g - n)"
      using ge by (simp add: step nth_append del: length_take)
    also have "\<dots> = F (take n (drop (g div n * n) xs)) ! (g mod n)"
      by (simp add: ih d m add.commute)
    finally show ?thesis .
  qed
qed

lemma chunk_at:
  assumes "0 < n" and "g < length xs"
  shows "g mod n < length (take n (drop (g div n * n) xs))"
    and "take n (drop (g div n * n) xs) ! (g mod n) = xs ! g"
    and "take n (drop (g div n * n) xs) \<noteq> []"
proof -
  have e: "g div n * n + g mod n = g" by simp
  then have "g div n * n \<le> g" by linarith
  with assms(2) have "g mod n < length xs - g div n * n" using e by linarith
  with assms(1) show l: "g mod n < length (take n (drop (g div n * n) xs))" by simp
  then show "take n (drop (g div n * n) xs) \<noteq> []" by auto
  have "g div n * n + g mod n \<le> length xs" using e assms(2) by linarith
  then have "drop (g div n * n) xs ! (g mod n) = xs ! (g div n * n + g mod n)"
    by (intro nth_drop) linarith
  with l show "take n (drop (g div n * n) xs) ! (g mod n) = xs ! g"
    by (simp only: e) simp
qed

lemma length_slot_lines: "length (slot_lines env c) = length c"
  by (simp add: slot_lines_def)

lemma output_line_at:
  assumes "0 < n" and "g < length L"
  shows "take 65 (drop (65 * g) (concat (map (batch_text env) (chunks n L))))
         = slot_lines env (take n (drop (g div n * n) L)) ! (g mod n)"
proof -
  let ?ls = "concat (map (slot_lines env) (chunks n L))"
  have out: "concat (map (batch_text env) (chunks n L)) = concat (map (\<lambda>l. l) ?ls)"
  proof -
    have "\<And>cs. concat (map (batch_text env) cs) = concat (concat (map (slot_lines env) cs))"
    proof -
      fix cs show "concat (map (batch_text env) cs) = concat (concat (map (slot_lines env) cs))"
        by (induction cs) (simp_all add: batch_text_lines)
    qed
    then show ?thesis by simp
  qed
  have len: "length ?ls = length L"
    using assms(1) by (simp add: length_concat_slot_lines concat_chunks)
  have "\<forall>l \<in> set ?ls. length ((\<lambda>l. l) l) = 65"
    using hex_line_props by (auto simp: slot_lines_def)
  moreover have "g < length ?ls" using assms(2) len by simp
  ultimately have "take 65 (drop (65 * g) (concat (map (\<lambda>l. l) ?ls))) = ?ls ! g"
    by (rule take_drop_block)
  moreover have "?ls ! g = slot_lines env (take n (drop (g div n * n) L)) ! (g mod n)"
    using assms(1) length_slot_lines assms(2) by (rule concat_chunks_nth)
  ultimately show ?thesis by (simp only: out)
qed

section \<open>Lemmas about a device that computes a digest of each slot\<close>








section \<open>Lemmas about start-up failures\<close>

lemma check_all_None:
  "check_all env k msgs = None \<longleftrightarrow> (\<forall>m \<in> set msgs. cl_status env m k = CL_SUCCESS)"
  by (induction msgs) (auto simp: CHECK_CL_def split: option.splits)

lemma bootstrap_None:
  assumes "bootstrap env n = None"
  shows "platforms env \<noteq> []" and "kernel_source_ok env"
    and "cl_status env ''clBuildProgram'' 0 = CL_SUCCESS"
    and "malloc_ok env (size_t (n * 8))" and "malloc_ok env (size_t (n * 4))"
proof -
  from assms have a: "check_all env 0 [''clGetPlatformIDs(count)''] = None"
    by (simp add: bootstrap_def del: check_all.simps split: option.splits)
  with assms show p: "platforms env \<noteq> []"
    by (simp add: bootstrap_def del: check_all.simps split: if_splits)
  with assms a have b: "check_all env 0 [''clGetPlatformIDs(list)''] = None"
    by (simp add: bootstrap_def del: check_all.simps split: option.splits)
  from assms a p b obtain d where d: "select_device (platforms env) 0 = Inr (Some d)"
    by (simp add: bootstrap_def del: check_all.simps split: sum.splits option.splits)
  from assms a p b d
  have c: "check_all env 0 [''clCreateContext'', ''clCreateCommandQueueWithProperties''] = None"
    by (simp add: bootstrap_def del: check_all.simps split: option.splits)
  from assms a p b d c show k: "kernel_source_ok env"
    by (simp add: bootstrap_def del: check_all.simps split: if_splits)
  from assms a p b d c k
  have e: "check_all env 0 [''clCreateProgramWithSource'', ''clBuildProgram'', ''clCreateKernel'']
           = None"
    by (simp add: bootstrap_def del: check_all.simps split: option.splits)
  then show "cl_status env ''clBuildProgram'' 0 = CL_SUCCESS"
    unfolding check_all_None by simp
  from assms a p b d c k e show "malloc_ok env (size_t (n * 8))" "malloc_ok env (size_t (n * 4))"
    by (simp_all add: bootstrap_def del: check_all.simps split: if_splits)
qed

section \<open>Lemmas about the end of the input stream\<close>











section \<open>Lemmas about runs that stop early\<close>

lemma pack_Inr_packed:
  assumes c: "c \<noteq> []" and len: "length c \<le> n"
      and f: "\<forall>l \<in> set c. length l \<le> SSIZE_MAX \<and> n * stride_bytes_of (length (record_of l)) < 2 ^ 64"
      and p: "pack env (batch_of c) = Inr m"
  shows "m = packed c"
proof -
  let ?b = "batch_of c"
  note fit = batch_of_fits [OF c len f]
  have t: "total_bytes_of (num_msgs ?b) (stride_bytes_of (max_len ?b))
           = num_msgs ?b * stride_bytes_of (max_len ?b)"
    using fit(2) by (simp add: total_bytes_of_def size_t_def)
  from p have "malloc_ok env (num_msgs ?b * stride_bytes_of (max_len ?b))"
    by (simp add: pack_def Let_def t split: if_splits)
  from pack_closed [OF batch_of_facts(2) fit this] p show ?thesis
    by (simp add: packed_def)
qed

lemma launch_batch_Inr:
  assumes c: "c \<noteq> []" and len: "length c \<le> n"
      and f: "\<forall>l \<in> set c. length l \<le> SSIZE_MAX \<and> n * stride_bytes_of (length (record_of l)) < 2 ^ 64"
      and l: "launch_batch env bi (batch_of c) = Inr buf"
  shows "pack env (batch_of c) = Inr (packed c)"
    and "buf = engine env (packed c) (lens_host (batch_of c))
                 (msg_stride_of (stride_bytes_of (max_len (batch_of c)))) (length c)"
proof -
  from l obtain m where m: "pack env (batch_of c) = Inr m"
    by (cases "pack env (batch_of c)") (simp_all add: launch_batch_def)
  from pack_Inr_packed [OF c len f m] m show p: "pack env (batch_of c) = Inr (packed c)"
    by simp
  from l show "buf = engine env (packed c) (lens_host (batch_of c))
                 (msg_stride_of (stride_bytes_of (max_len (batch_of c)))) (length c)"
    by (simp add: launch_batch_def p batch_of_facts(4) del: check_all.simps split: option.splits)
qed

lemma chunks_take_add:
  assumes n: "0 < n" and ne: "xs \<noteq> []"
  shows "chunks n (take (length (take n xs) + k) xs) = take n xs # chunks n (take k (drop n xs))"
proof (cases "n \<le> length xs")
  case True
  then have ln: "length (take n xs) = n" by simp
  from ne n True have y: "take (n + k) xs \<noteq> []" by auto
  have t: "take n (take (n + k) xs) = take n xs"
    by (simp add: min_def)
  have d: "drop n (take (n + k) xs) = take k (drop n xs)"
    by (simp add: drop_take)
  from chunks_Cons [OF n y] show ?thesis
    by (simp only: ln t d)
next
  case False
  then have e: "take n xs = xs" "drop n xs = []" "take (length xs + k) xs = xs"
    by simp_all
  from chunks_Cons [OF n ne] show ?thesis
    by (simp only: e take.simps chunks_Nil)
qed

lemma batch_loop_prefix:
  assumes n: "0 < n"
  shows "fits n (pending (fin st)) \<Longrightarrow>
         \<exists>m \<le> length (lines_of (pending (fin st))).
           (n dvd m \<or> m = length (lines_of (pending (fin st)))) \<and>
           fout (snd (batch_loop env n st))
             = fout st @ concat (map (batch_text env) (chunks n (take m (lines_of (pending (fin st)))))) \<and>
           (\<forall>c \<in> set (chunks n (take m (lines_of (pending (fin st))))).
              pack env (batch_of c) = Inr (packed c)) \<and>
           (fst (batch_loop env n st) = None \<longrightarrow> m = length (lines_of (pending (fin st))))"
proof (induction "length (lines_of (pending (fin st)))" arbitrary: st rule: less_induct)
  case less
  let ?L = "lines_of (pending (fin st))"
  let ?c = "take n ?L"
  note unf = batch_loop.simps [of env n st]
  have zero: "fout (snd r) = fout st \<Longrightarrow> fst r \<noteq> None \<or> ?L = [] \<Longrightarrow>
        \<exists>m \<le> length ?L. (n dvd m \<or> m = length ?L) \<and>
           fout (snd r) = fout st @ concat (map (batch_text env) (chunks n (take m ?L))) \<and>
           (\<forall>c \<in> set (chunks n (take m ?L)). pack env (batch_of c) = Inr (packed c)) \<and>
           (fst r = None \<longrightarrow> m = length ?L)" for r :: "failure option \<times> run_state"
    by (rule exI [of _ 0]) auto
  show ?case
  proof (cases "read_batch env n (fin st) empty_batch")
    case (Inl f)
    then have "batch_loop env n st = (Some f, st)"
      by (simp add: unf)
    then show ?thesis
      using zero [of "batch_loop env n st"] by simp
  next
    case (Inr p)
    obtain b s' where p: "p = (b, s')" by (cases p)
    note r = Inr [unfolded p]
    from read_batch_Inr [OF r]
    have b: "b = batch_of ?c" and s': "s' = (fin st)\<lparr>pending := concat (drop n ?L)\<rparr>"
      by (simp_all add: batch_of_def num_msgs_def empty_batch_def)
    have nm: "num_msgs b = length ?c"
      by (simp only: b batch_of_facts(4))
    show ?thesis
    proof (cases "?L = []")
      case True
      then have "batch_loop env n st = (None, st\<lparr>fin := s'\<rparr>)"
        by (simp add: unf r nm)
      then show ?thesis
        using zero [of "batch_loop env n st"] True by simp
    next
      case False
      from False n have c: "?c \<noteq> []" by simp
      have len: "length ?c \<le> n" by simp
      have f: "\<forall>l \<in> set ?c. length l \<le> SSIZE_MAX \<and> n * stride_bytes_of (length (record_of l)) < 2 ^ 64"
        using less.prems by (auto simp: fits_def dest: in_set_takeD)
      from c have nz: "num_msgs b \<noteq> 0" by (simp add: nm)
      show ?thesis
      proof (cases "launch_batch env (batch_index st + 1) b")
        case (Inl f)
        then have "batch_loop env n st = (Some f, st\<lparr>fin := s', batch_index := batch_index st + 1\<rparr>)"
          using nz by (simp add: unf r)
        then show ?thesis
          using zero [of "batch_loop env n st"] by simp
      next
        case lb: (Inr buf_out)
        note lf = launch_batch_Inr [OF c len f lb [unfolded b]]
        show ?thesis
        proof (cases "read_back env (batch_index st + 1) (num_msgs b) buf_out")
          case (Inl f)
          then have "batch_loop env n st
              = (Some f, st\<lparr>fin := s', batch_index := batch_index st + 1,
                            launches := launches st @ [num_msgs b]\<rparr>)"
            using nz lb by (simp add: unf r)
          then show ?thesis
            using zero [of "batch_loop env n st"] by simp
        next
          case rk: (Inr digests_host)
          let ?st' = "st\<lparr>fin := s',
                          fout := fout st @ emit digests_host (num_msgs b),
                          batch_index := batch_index st + 1,
                          launches := launches st @ [num_msgs b]\<rparr>"
          have step: "batch_loop env n st = batch_loop env n ?st'"
            using nz lb rk by (simp add: unf r)
          have em: "emit digests_host (num_msgs b) = batch_text env ?c"
            using read_back_Inr [OF rk] by (simp add: batch_text_def nm lf(2))
          have L': "lines_of (pending (fin ?st')) = drop n ?L"
            by (simp add: s' lines_of_concat_drop)
          have "length (drop n ?L) < length ?L"
            using False n by simp
          then have "length (lines_of (pending (fin ?st'))) < length ?L"
            by (simp only: L')
          moreover have "fits n (pending (fin ?st'))"
            using fits_drop [OF less.prems] by (simp add: s')
          ultimately have "\<exists>m \<le> length (lines_of (pending (fin ?st'))).
             (n dvd m \<or> m = length (lines_of (pending (fin ?st')))) \<and>
             fout (snd (batch_loop env n ?st'))
               = fout ?st' @ concat (map (batch_text env) (chunks n (take m (lines_of (pending (fin ?st')))))) \<and>
             (\<forall>c \<in> set (chunks n (take m (lines_of (pending (fin ?st'))))).
                pack env (batch_of c) = Inr (packed c)) \<and>
             (fst (batch_loop env n ?st') = None \<longrightarrow> m = length (lines_of (pending (fin ?st'))))"
            by (rule less.hyps)
          then obtain k where kk: "k \<le> length (lines_of (pending (fin ?st'))) \<and>
             (n dvd k \<or> k = length (lines_of (pending (fin ?st')))) \<and>
             fout (snd (batch_loop env n ?st'))
               = fout ?st' @ concat (map (batch_text env) (chunks n (take k (lines_of (pending (fin ?st')))))) \<and>
             (\<forall>c \<in> set (chunks n (take k (lines_of (pending (fin ?st'))))).
                pack env (batch_of c) = Inr (packed c)) \<and>
             (fst (batch_loop env n ?st') = None \<longrightarrow> k = length (lines_of (pending (fin ?st'))))"
            by (rule exE)
          note k0 = conjunct1 [OF kk]
          note kd0 = conjunct1 [OF conjunct2 [OF kk]]
          note ko0 = conjunct1 [OF conjunct2 [OF conjunct2 [OF kk]]]
          note kp0 = conjunct1 [OF conjunct2 [OF conjunct2 [OF conjunct2 [OF kk]]]]
          note ke0 = conjunct2 [OF conjunct2 [OF conjunct2 [OF conjunct2 [OF kk]]]]
          have fo: "fout ?st' = fout st @ batch_text env ?c"
            by (simp add: em)
          have k: "k \<le> length (drop n ?L)"
            using k0 by (simp only: L')
          have kd: "n dvd k \<or> k = length (drop n ?L)"
            using kd0 by (simp only: L')
          have ko: "fout (snd (batch_loop env n st))
                     = (fout st @ batch_text env ?c) @ concat (map (batch_text env) (chunks n (take k (drop n ?L))))"
            using ko0 by (simp only: L' step [symmetric] fo)
          have kp: "\<forall>c \<in> set (chunks n (take k (drop n ?L))). pack env (batch_of c) = Inr (packed c)"
            using kp0 by (simp only: L')
          have ke: "fst (batch_loop env n st) = None \<longrightarrow> k = length (drop n ?L)"
            using ke0 by (simp only: L' step [symmetric])
          let ?m = "length ?c + k"
          note ch = chunks_take_add [OF n False, of k]
          have m1: "?m \<le> length ?L" using k by simp
          have m2: "n dvd ?m \<or> ?m = length ?L"
          proof (cases "n \<le> length ?L")
            case True
            then have "length ?c = n" by simp
            with kd show ?thesis by auto
          next
            case no: False
            then have "k = 0" using k by simp
            with no show ?thesis by simp
          qed
          have m3: "fout (snd (batch_loop env n st))
                    = fout st @ concat (map (batch_text env) (chunks n (take ?m ?L)))"
            by (simp only: ko ch list.map concat.simps append_assoc)
          have m4: "\<forall>c \<in> set (chunks n (take ?m ?L)). pack env (batch_of c) = Inr (packed c)"
            using kp lf(1) by (simp only: ch) simp
          have m5: "fst (batch_loop env n st) = None \<longrightarrow> ?m = length ?L"
            using ke by auto
          show ?thesis
          proof (intro exI [of _ ?m] conjI)
            show "?m \<le> length ?L" by (rule m1)
            show "n dvd ?m \<or> ?m = length ?L" by (rule m2)
            show "fout (snd (batch_loop env n st))
                    = fout st @ concat (map (batch_text env) (chunks n (take ?m ?L)))" by (rule m3)
            show "\<forall>c \<in> set (chunks n (take ?m ?L)). pack env (batch_of c) = Inr (packed c)" by (rule m4)
            show "fst (batch_loop env n st) = None \<longrightarrow> ?m = length ?L" by (rule m5)
          qed
        qed
      qed
    qed
  qed
qed

lemma chunk_in_chunks:
  assumes n: "0 < n"
  shows "g < length xs \<Longrightarrow> take n (drop (g div n * n) xs) \<in> set (chunks n xs)"
proof (induction "length xs" arbitrary: xs g rule: less_induct)
  case less
  then have ne: "xs \<noteq> []" by auto
  note step = chunks_Cons [OF n ne]
  show ?case
  proof (cases "g < n")
    case True
    then show ?thesis by (simp add: step)
  next
    case False
    then have ge: "n \<le> g" by simp
    have sm: "length (drop n xs) < length xs" using ne n by simp
    have g': "g - n < length (drop n xs)" using less.prems ge by simp
    have ih: "take n (drop ((g - n) div n * n) (drop n xs)) \<in> set (chunks n (drop n xs))"
      using sm g' by (rule less.hyps)
    have d: "g div n = Suc ((g - n) div n)" using ge n by (simp add: le_div_geq)
    from ih show ?thesis
      by (simp add: step d add.commute)
  qed
qed

lemma take_chunk_prefix:
  assumes n: "0 < n" and g: "g < m" and m: "n dvd m \<or> m = length L" and le: "m \<le> length L"
  shows "take n (drop (g div n * n) (take m L)) = take n (drop (g div n * n) L)"
  using m
proof
  assume "m = length L"
  then show ?thesis by simp
next
  assume "n dvd m"
  then obtain q where q: "m = n * q" by (auto simp: dvd_def)
  with g n have "g div n < q"
    by (simp add: div_less_iff_less_mult mult.commute)
  then have "Suc (g div n) \<le> q" by simp
  then have "Suc (g div n) * n \<le> q * n" by (rule mult_le_mono1)
  then have "g div n * n + n \<le> m" by (simp add: q mult.commute)
  then have "n \<le> m - g div n * n" by linarith
  then show ?thesis
    by (simp add: drop_take min_def)
qed

lemma exit_status_nonzero: "exit_status f \<noteq> Exited 0"
  by (cases f) simp_all

lemma length_output_chunks:
  "0 < n \<Longrightarrow> length (concat (map (batch_text env) (chunks n xs))) = 65 * length xs"
proof -
  assume n: "0 < n"
  have "\<And>cs. length (concat (map (batch_text env) cs)) = 65 * length (concat cs)"
  proof -
    fix cs show "length (concat (map (batch_text env) cs)) = 65 * length (concat cs)"
      by (induction cs) (simp_all add: length_batch_text)
  qed
  then have "length (concat (map (batch_text env) (chunks n xs))) = 65 * length (concat (chunks n xs))" .
  with n show ?thesis by (simp add: concat_chunks)
qed

lemma main_prefix:
  assumes n: "0 < n"
      and "fs inp = Some content" and "readable env inp" and "writable env out"
      and f: "fits n (if inp = out then [] else content)"
  shows "\<exists>m \<le> length (lines_of (if inp = out then [] else content)).
           (n dvd m \<or> m = length (lines_of (if inp = out then [] else content))) \<and>
           files_after (main env n [prog, inp, out] fs) out
             = Some (concat (map (batch_text env)
                       (chunks n (take m (lines_of (if inp = out then [] else content)))))) \<and>
           (\<forall>c \<in> set (chunks n (take m (lines_of (if inp = out then [] else content)))).
              pack env (batch_of c) = Inr (packed c)) \<and>
           (status (main env n [prog, inp, out] fs) = Exited 0
              \<longrightarrow> m = length (lines_of (if inp = out then [] else content)))"
proof -
  let ?input = "if inp = out then [] else content"
  let ?L = "lines_of ?input"
  let ?st = "\<lparr>fin = \<lparr>pending = ?input, at_end = input_end env\<rparr>, fout = [], batch_index = 0,
              launches = []\<rparr>"
  have in_eq: "(case (fs(out \<mapsto> [])) inp of None \<Rightarrow> [] | Some c \<Rightarrow> c) = ?input"
    using assms(2) by simp
  show ?thesis
  proof (cases "bootstrap env n")
    case (Some e)
    then have m: "main env n [prog, inp, out] fs
                  = \<lparr>status = exit_status e, files_after = fs(out \<mapsto> []), launched = []\<rparr>"
      using assms(2-4) by (simp add: main_def Let_def del: fun_upd_apply)
    show ?thesis
    proof (intro exI [of _ 0] conjI)
      show "0 \<le> length ?L" by simp
      show "n dvd 0 \<or> 0 = length ?L" by simp
      show "files_after (main env n [prog, inp, out] fs) out
            = Some (concat (map (batch_text env) (chunks n (take 0 ?L))))"
        by (simp add: m)
      show "\<forall>c \<in> set (chunks n (take 0 ?L)). pack env (batch_of c) = Inr (packed c)"
        by simp
      show "status (main env n [prog, inp, out] fs) = Exited 0 \<longrightarrow> 0 = length ?L"
        by (simp add: m exit_status_nonzero)
    qed
  next
    case None
    obtain r st' where bl: "batch_loop env n ?st = (r, st')"
      by (cases "batch_loop env n ?st")
    have m: "main env n [prog, inp, out] fs
             = \<lparr>status = (case r of None \<Rightarrow> Exited 0 | Some f \<Rightarrow> exit_status f),
                files_after = fs(out \<mapsto> fout st'), launched = launches st'\<rparr>"
      using assms(2-4) None by (simp add: main_def Let_def in_eq bl del: fun_upd_apply)
    have "fits n (pending (fin ?st))" using f by simp
    from batch_loop_prefix [OF n this, of env]
    obtain k where kk: "k \<le> length (lines_of (pending (fin ?st))) \<and>
           (n dvd k \<or> k = length (lines_of (pending (fin ?st)))) \<and>
           fout (snd (batch_loop env n ?st))
             = fout ?st @ concat (map (batch_text env) (chunks n (take k (lines_of (pending (fin ?st)))))) \<and>
           (\<forall>c \<in> set (chunks n (take k (lines_of (pending (fin ?st))))).
              pack env (batch_of c) = Inr (packed c)) \<and>
           (fst (batch_loop env n ?st) = None \<longrightarrow> k = length (lines_of (pending (fin ?st))))"
      by (rule exE)
    have p: "pending (fin ?st) = ?input" "fout ?st = []" by simp_all
    note k1 = conjunct1 [OF kk, unfolded p]
    note k2 = conjunct1 [OF conjunct2 [OF kk], unfolded p]
    note k3 = conjunct1 [OF conjunct2 [OF conjunct2 [OF kk]], unfolded p bl snd_conv append_Nil]
    note k4 = conjunct1 [OF conjunct2 [OF conjunct2 [OF conjunct2 [OF kk]]], unfolded p]
    note k5 = conjunct2 [OF conjunct2 [OF conjunct2 [OF conjunct2 [OF kk]]], unfolded p bl fst_conv]
    show ?thesis
    proof (intro exI [of _ k] conjI)
      show "k \<le> length ?L" by (rule k1)
      show "n dvd k \<or> k = length ?L" by (rule k2)
      show "files_after (main env n [prog, inp, out] fs) out
            = Some (concat (map (batch_text env) (chunks n (take k ?L))))"
        by (simp add: m k3)
      show "\<forall>c \<in> set (chunks n (take k ?L)). pack env (batch_of c) = Inr (packed c)"
        by (rule k4)
      show "status (main env n [prog, inp, out] fs) = Exited 0 \<longrightarrow> k = length ?L"
        using k5 by (cases r) (simp_all add: m exit_status_nonzero)
    qed
  qed
qed

section \<open>The claims\<close>

text \<open>
  C3. The stride of a batch is \<open>align_up (max L 1) 64\<close>, where \<open>L\<close> is the length of the
  longest record of the batch: a multiple of 64, at least \<open>L\<close>, and the least multiple of
  64 that is at least \<open>max L 1\<close>; it is 64 when every record is empty. The batch is any
  batch the reader returns; the input has at most \<open>SSIZE_MAX\<close> bytes, the largest length
  \<open>getline\<close> can report. The witness is the batch of one record of 130 bytes and one of 3
  bytes, whose stride is 192.
\<close>

theorem stride_is_aligned_maximum:
  assumes "read_batch env n s empty_batch = Inr (b, s')"
      and "length (pending s) \<le> SSIZE_MAX"
  shows "let L = Max (insert 0 (length ` set (line_bufs b)));
             stride_bytes = stride_bytes_of (max_len b)
         in stride_bytes = align_up (max L 1) 64 \<and>
            64 dvd stride_bytes \<and> L \<le> stride_bytes \<and>
            (\<forall>m. 64 dvd m \<and> max L 1 \<le> m \<longrightarrow> stride_bytes \<le> m) \<and>
            ((\<forall>r \<in> set (line_bufs b). length r = 0) \<longrightarrow> stride_bytes = 64)"
proof -
  define ls where "ls = take (n - num_msgs empty_batch) (lines_of (pending s))"
  define L where "L = Max (insert 0 (length ` set (line_bufs b)))"
  from read_batch_Inr [OF assms(1)] have b: "b = foldl store_line empty_batch ls"
    by (simp add: ls_def)
  have bufs: "line_bufs b = map record_of ls"
    by (simp add: b line_bufs_foldl empty_batch_def)
  have ml: "max_len b = L"
    by (simp add: b max_len_foldl L_def line_bufs_foldl empty_batch_def)
  have "\<forall>x \<in> insert 0 (length ` set (line_bufs b)). x \<le> SSIZE_MAX"
  proof
    fix x assume "x \<in> insert 0 (length ` set (line_bufs b))"
    then consider "x = 0" | l where "l \<in> set ls" "x = length (record_of l)"
      by (auto simp: bufs)
    then show "x \<le> SSIZE_MAX"
    proof cases
      case 1
      then show ?thesis by simp
    next
      case 2
      then have "l \<in> set (lines_of (pending s))"
        by (auto simp: ls_def dest: in_set_takeD)
      then have "length l \<le> length (pending s)" by (rule length_line_le)
      with 2 assms(2) record_of_length_le [of l] show ?thesis by linarith
    qed
  qed
  then have bound: "L \<le> SSIZE_MAX"
    unfolding L_def by (subst Max_le_iff) auto
  have s: "stride_bytes_of L = align_up (max L 1) 64"
    using bound by (rule stride_bytes_of_align)
  have zero: "(\<forall>r \<in> set (line_bufs b). length r = 0) \<longrightarrow> L = 0"
  proof
    assume "\<forall>r \<in> set (line_bufs b). length r = 0"
    then have "L \<le> 0"
      unfolding L_def by (subst Max_le_iff) auto
    then show "L = 0" by simp
  qed
  have "stride_bytes_of 0 = 64" by (simp add: stride_bytes_of_def)
  with zero s align_up_64_least [of "max L 1"] show ?thesis
    unfolding Let_def ml L_def [symmetric] by auto
qed

theorem stride_is_aligned_maximum_witness:
  "read_batch (ideal_env (\<lambda>msgs lens stride n i. 0)) 5
     \<lparr>pending = replicate 130 (CHR ''a'') @ CHR 0x0A # replicate 3 (CHR ''b'') @ [CHR 0x0A],
      at_end = EndOfFile\<rparr> empty_batch
   = Inr (\<lparr>line_bufs = [replicate 130 (CHR ''a''), replicate 3 (CHR ''b'')],
           lens_host = [130, 3], max_len = 130\<rparr>,
          \<lparr>pending = [], at_end = EndOfFile\<rparr>) \<and>
   Max (insert 0 (length ` set [replicate 130 (CHR ''a''), replicate 3 (CHR ''b'')])) = 130 \<and>
   stride_bytes_of 130 = 192 \<and> align_up (max 130 1) 64 = 192"
proof -
  let ?s = "\<lparr>pending = replicate 130 (CHR ''a'') @ CHR 0x0A # replicate 3 (CHR ''b'') @ [CHR 0x0A],
             at_end = EndOfFile\<rparr>"
  let ?b = "\<lparr>line_bufs = [replicate 130 (CHR ''a''), replicate 3 (CHR ''b'')],
             lens_host = [130, 3], max_len = 130\<rparr>"
  have r: "read_batch (ideal_env (\<lambda>msgs lens stride n i. 0)) 5 ?s empty_batch
           = Inr (?b, \<lparr>pending = [], at_end = EndOfFile\<rparr>)"
    by (simp add: read_batch_ok lines_of_terminated num_msgs_def empty_batch_def store_line_def
          strip_len_length Let_def)
  have l: "length (pending ?s) \<le> SSIZE_MAX"
    by (simp add: SSIZE_MAX_def)
  from stride_is_aligned_maximum [OF r l] r show ?thesis
    by (simp add: Let_def align_up_def)
qed

text \<open>
  C1. Whatever a run writes to the output file, also a run that fails later, is a sequence
  of \<open>m\<close> lines of 65 characters, with \<open>m\<close> at most the number of lines of the input, and
  line \<open>g\<close> of the output (counted from 0, at offset \<open>65 g\<close>) belongs to line \<open>g\<close> of the
  input: with batches of \<open>n\<close> lines, input line \<open>g\<close> is read into batch \<open>g div n\<close>, its record
  is stored at index \<open>i = g mod n\<close> of that batch, and output line \<open>g\<close> is the rendering of
  the words \<open>8 i, ..., 8 i + 7\<close> that the device returns for the packed buffer of that
  batch, that is of output slot \<open>i\<close>. The rendering of 8 words is 64 lowercase hexadecimal
  digits, every word most significant byte first, followed by a newline. When the run
  exits with code 0, and so whenever nothing fails, every line of the input has its
  output line. So the order of the output is the order of the input, within a batch and
  across batches. The only hypothesis on the input is that it can be buffered (\<open>fits\<close>).
\<close>

theorem output_lines_in_input_order:
  assumes "0 < n"
      and "fs inp = Some content" and "readable env inp" and "writable env out"
      and "input = (if inp = out then [] else content)"
      and "fits n input"
  shows "\<exists>output m.
           files_after (main env n [prog, inp, out] fs) out = Some output \<and>
           length output = 65 * m \<and> m \<le> line_count input \<and>
           (status (main env n [prog, inp, out] fs) = Exited 0 \<longrightarrow> m = line_count input) \<and>
           (env_ok env \<and> bootstrap env n = None \<longrightarrow> m = line_count input) \<and>
           (\<forall>g < m.
              let b = batch_of (take n (drop (g div n * n) (lines_of input)));
                  i = g mod n
              in i < num_msgs b \<and>
                 line_bufs b ! i = record_of (lines_of input ! g) \<and>
                 (\<exists>msgs_bytes.
                    pack env b = Inr msgs_bytes \<and>
                    take 65 (drop (65 * g) output)
                      = hex_line (map (\<lambda>j. engine env msgs_bytes (lens_host b)
                                               (msg_stride_of (stride_bytes_of (max_len b)))
                                               (num_msgs b) (i * 8 + j)) [0..<8]))) \<and>
           (\<forall>ws. length ws = 8 \<longrightarrow>
                 length (hex_line ws) = 65 \<and>
                 set (butlast (hex_line ws)) \<subseteq> set ''0123456789abcdef'' \<and>
                 last (hex_line ws) = CHR 0x0A)"
proof -
  let ?L = "lines_of input"
  note n = assms(1)
  have fit: "fits n (if inp = out then [] else content)"
    using assms(6) by (simp only: assms(5))
  from main_prefix [where n = n and fs = fs and inp = inp and content = content and env = env
      and out = out and prog = prog, OF n assms(2,3,4) fit]
  obtain m where mm: "m \<le> length ?L \<and>
           (n dvd m \<or> m = length ?L) \<and>
           files_after (main env n [prog, inp, out] fs) out
             = Some (concat (map (batch_text env) (chunks n (take m ?L)))) \<and>
           (\<forall>c \<in> set (chunks n (take m ?L)). pack env (batch_of c) = Inr (packed c)) \<and>
           (status (main env n [prog, inp, out] fs) = Exited 0 \<longrightarrow> m = length ?L)"
    unfolding assms(5) [symmetric] by (rule exE)
  note m1 = conjunct1 [OF mm]
  note m2 = conjunct1 [OF conjunct2 [OF mm]]
  note m3 = conjunct1 [OF conjunct2 [OF conjunct2 [OF mm]]]
  note m4 = conjunct1 [OF conjunct2 [OF conjunct2 [OF conjunct2 [OF mm]]]]
  note m5 = conjunct2 [OF conjunct2 [OF conjunct2 [OF conjunct2 [OF mm]]]]
  let ?out = "concat (map (batch_text env) (chunks n (take m ?L)))"
  have lm: "length (take m ?L) = m" using m1 by simp
  have len: "length ?out = 65 * m"
    using length_output_chunks [OF n, of env "take m ?L"] by (simp only: lm)
  have le: "m \<le> line_count input"
    using m1 by (simp only: length_lines_of)
  have st: "status (main env n [prog, inp, out] fs) = Exited 0 \<longrightarrow> m = line_count input"
    using m5 by (simp only: length_lines_of)
  have ok: "env_ok env \<and> bootstrap env n = None \<longrightarrow> m = line_count input"
  proof
    assume a: "env_ok env \<and> bootstrap env n = None"
    have "status (main env n [prog, inp, out] fs) = Exited 0"
      using main_closed [of env n fs inp content out prog] a n assms(2,3,4) fit by simp
    with st show "m = line_count input" by simp
  qed
  have lines: "\<forall>g < m.
              let b = batch_of (take n (drop (g div n * n) ?L)); i = g mod n
              in i < num_msgs b \<and>
                 line_bufs b ! i = record_of (?L ! g) \<and>
                 (\<exists>msgs_bytes.
                    pack env b = Inr msgs_bytes \<and>
                    take 65 (drop (65 * g) ?out)
                      = hex_line (map (\<lambda>j. engine env msgs_bytes (lens_host b)
                                               (msg_stride_of (stride_bytes_of (max_len b)))
                                               (num_msgs b) (i * 8 + j)) [0..<8]))"
  proof (intro allI impI)
    fix g assume gm: "g < m"
    with m1 have g: "g < length ?L" by simp
    from gm have g': "g < length (take m ?L)" by (simp only: lm)
    let ?c = "take n (drop (g div n * n) ?L)"
    let ?b = "batch_of ?c"
    let ?i = "g mod n"
    note ca = chunk_at [OF n g]
    have pre: "take n (drop (g div n * n) (take m ?L)) = ?c"
      using n gm m2 m1 by (rule take_chunk_prefix)
    have i: "?i < num_msgs ?b"
      using ca(1) by (simp only: batch_of_facts(4))
    have r: "line_bufs ?b ! ?i = record_of (?L ! g)"
      using ca(1) by (simp only: batch_of_facts(1) nth_map ca(2))
    have "?c \<in> set (chunks n (take m ?L))"
      using chunk_in_chunks [OF n g'] by (simp only: pre)
    with m4 have p: "pack env ?b = Inr (packed ?c)"
      by (rule bspec)
    have "take 65 (drop (65 * g) ?out) = slot_lines env ?c ! ?i"
      using output_line_at [OF n g', of env] by (simp only: pre)
    also have "\<dots> = hex_line (map (\<lambda>j. engine env (packed ?c) (lens_host ?b)
                                 (msg_stride_of (stride_bytes_of (max_len ?b)))
                                 (num_msgs ?b) (?i * 8 + j)) [0..<8])"
      using ca(1) by (simp add: slot_lines_def batch_of_facts(4))
    finally have "take 65 (drop (65 * g) ?out)
                  = hex_line (map (\<lambda>j. engine env (packed ?c) (lens_host ?b)
                                 (msg_stride_of (stride_bytes_of (max_len ?b)))
                                 (num_msgs ?b) (?i * 8 + j)) [0..<8])" .
    with p i r show "let b = batch_of (take n (drop (g div n * n) ?L)); i = g mod n
              in i < num_msgs b \<and>
                 line_bufs b ! i = record_of (?L ! g) \<and>
                 (\<exists>msgs_bytes.
                    pack env b = Inr msgs_bytes \<and>
                    take 65 (drop (65 * g) ?out)
                      = hex_line (map (\<lambda>j. engine env msgs_bytes (lens_host b)
                                               (msg_stride_of (stride_bytes_of (max_len b)))
                                               (num_msgs b) (i * 8 + j)) [0..<8]))"
      unfolding Let_def by blast
  qed
  have props: "\<forall>ws. length ws = 8 \<longrightarrow>
                 length (hex_line ws) = 65 \<and>
                 set (butlast (hex_line ws)) \<subseteq> set ''0123456789abcdef'' \<and>
                 last (hex_line ws) = CHR 0x0A"
    using hex_line_props by simp
  show ?thesis
    apply (rule exI [of _ ?out])
    apply (rule exI [of _ m])
    apply (intro conjI)
          apply (rule m3)
         apply (rule len)
        apply (rule le)
       apply (rule st)
      apply (rule ok)
     apply (rule lines)
    apply (rule props)
    done
qed

theorem output_lines_in_input_order_witness:
  "files_after (main (ideal_env (\<lambda>msgs lens stride n i. lens ! (i div 8))) 2
                  [''sha256_host'', ''in'', ''out'']
                  [''in'' \<mapsto> ''abc'' @ [CHR 0x0A, CHR 0x0A] @ ''hello'']) ''out''
   = Some (''0000000300000003000000030000000300000003000000030000000300000003'' @ [CHR 0x0A]
           @ ''0000000000000000000000000000000000000000000000000000000000000000'' @ [CHR 0x0A]
           @ ''0000000500000005000000050000000500000005000000050000000500000005'' @ [CHR 0x0A])"
proof -
  let ?dev = "\<lambda>(msgs :: string) (lens :: u32 list) (stride :: u32) (n :: nat) i. lens ! (i div 8)"
  let ?E = "ideal_env ?dev"
  let ?input = "''abc'' @ [CHR 0x0A, CHR 0x0A] @ ''hello''"
  let ?fs = "[''in'' \<mapsto> ?input]"
  let ?run = "main ?E 2 [''sha256_host'', ''in'', ''out''] ?fs"
  have i: "?input = (if ''in'' = ''out'' then [] else ?input)" by simp
  have h: "?fs ''in'' = Some ?input" by simp
  have two: "(0::nat) < 2" by simp
  have rw: "readable ?E ''in''" "writable ?E ''out''" by simp_all
  have f: "fits 2 ?input"
    by (simp add: fits_def record_of_def SSIZE_MAX_def stride_bytes_of_def size_t_def)
  have lc: "line_count ?input = 3"
    by (simp add: line_count_def)
  have L: "lines_of ?input = [''abc'' @ [CHR 0x0A], [CHR 0x0A], ''hello'']"
    by simp
  have b0: "lens_host (batch_of [''abc'' @ [CHR 0x0A], [CHR 0x0A]]) = [3, 0]"
    and b1: "lens_host (batch_of [''hello'']) = [5]"
    by (simp_all add: batch_of_def empty_batch_def store_line_def strip_len_def)
  have e8: "replicate 8 x = [x, x, x, x, x, x, x, x]" for x :: u32
    by (simp add: numeral_eq_Suc)
  have x3: "hex_line (replicate 8 3)
            = ''0000000300000003000000030000000300000003000000030000000300000003'' @ [CHR 0x0A]"
    and x0: "hex_line (replicate 8 0)
            = ''0000000000000000000000000000000000000000000000000000000000000000'' @ [CHR 0x0A]"
    and x5: "hex_line (replicate 8 5)
            = ''0000000500000005000000050000000500000005000000050000000500000005'' @ [CHR 0x0A]"
    by (simp_all add: e8 hex_line_def be_bytes_def hex_byte_def hex_digit_def)
  have r: "map (\<lambda>j. ws ! ((k * 8 + j) div 8)) [0..<8] = replicate 8 (ws ! k)" for ws :: "u32 list" and k
    by (simp add: upt_rec e8)
  from output_lines_in_input_order [where env = ?E and n = 2 and fs = ?fs and inp = "''in''"
      and content = ?input and out = "''out''" and input = ?input and prog = "''sha256_host''",
      OF two h rw i f]
  obtain outp m where o: "files_after ?run ''out'' = Some outp"
    and len: "length outp = 65 * m"
    and ok: "env_ok ?E \<and> bootstrap ?E 2 = None \<longrightarrow> m = line_count ?input"
    and allm: "\<forall>g < m.
              let b = batch_of (take 2 (drop (g div 2 * 2) (lines_of ?input))); i = g mod 2
              in i < num_msgs b \<and>
                 line_bufs b ! i = record_of (lines_of ?input ! g) \<and>
                 (\<exists>msgs_bytes.
                    pack ?E b = Inr msgs_bytes \<and>
                    take 65 (drop (65 * g) outp)
                      = hex_line (map (\<lambda>j. engine ?E msgs_bytes (lens_host b)
                                               (msg_stride_of (stride_bytes_of (max_len b)))
                                               (num_msgs b) (i * 8 + j)) [0..<8]))"
    by blast
  from ok ideal_env_ok [of ?dev] ideal_env_bootstrap [of ?dev 2] have m: "m = line_count ?input"
    by blast
  note all = allm [unfolded m]
  note len = len [unfolded m]
  have r0: "map (\<lambda>j. ws ! (j div 8)) [0..<8] = replicate 8 (ws ! 0)" for ws :: "u32 list"
    using r [of ws 0] by simp
  have r1: "map (\<lambda>j. ws ! ((8 + j) div 8)) [0..<8] = replicate 8 (ws ! 1)" for ws :: "u32 list"
    using r [of ws 1] by simp
  have g0: "take 65 (drop (65 * 0) outp) = hex_line (replicate 8 3)"
    using all [rule_format, of 0] lc L b0 by (simp add: Let_def r0)
  have g1: "take 65 (drop (65 * 1) outp) = hex_line (replicate 8 0)"
    using all [rule_format, of 1] lc L b0 by (simp add: Let_def r0 r1)
  have g2: "take 65 (drop (65 * 2) outp) = hex_line (replicate 8 5)"
    using all [rule_format, of 2] lc L b1 by (simp add: Let_def r0)
  from len lc have l195: "length outp = 195" by simp
  have "drop 65 (drop 65 outp) = take 65 (drop 130 outp)"
    using l195 by simp
  then have "drop 65 outp = take 65 (drop 65 outp) @ take 65 (drop 130 outp)"
    using append_take_drop_id [of 65 "drop 65 outp"] by simp
  then have "outp = take 65 outp @ take 65 (drop 65 outp) @ take 65 (drop 130 outp)"
    using append_take_drop_id [of 65 outp] by simp
  with g0 g1 g2 o show ?thesis
    by (simp add: x3 x0 x5)
qed

text \<open>
  C7. A line that \<open>getline\<close> returns is a prefix of the pending input. The record stored
  for it contains no newline; either the line is the record followed by one newline, or
  the line has no newline, is stored unchanged and is the last of the input. The record
  of a line that is a single newline is empty.
\<close>

theorem reader_strips_one_delimiter:
  assumes "getline s = Some (line, s')"
  shows "pending s = line @ pending s' \<and>
         (let copy = last (line_bufs (store_line b line))
          in CHR 0x0A \<notin> set copy \<and>
             (line = copy @ [CHR 0x0A] \<or> line = copy \<and> pending s' = [])) \<and>
         last (line_bufs (store_line b [CHR 0x0A])) = []"
proof -
  have empty: "last (line_bufs (store_line b [CHR 0x0A])) = []"
    by (simp add: store_line_def strip_len_def)
  from assms have ne: "pending s \<noteq> []" and line: "line = take_line (pending s)"
    and s': "pending s' = drop (length line) (pending s)"
    by (auto simp: getline_def Let_def split: if_splits)
  have lne: "line \<noteq> []"
    using ne line take_line_nonempty by simp
  have app: "pending s = line @ pending s'"
  proof -
    have "line = take (length line) (pending s)"
      using lines_of_take_line [OF ne] concat_lines_of [of "pending s"] line
      by (metis append_eq_conv_conj concat.simps(2))
    then show ?thesis using s' by (metis append_take_drop_id)
  qed
  have copy: "last (line_bufs (store_line b line)) = record_of line"
    by (simp add: store_line_def Let_def strip_len_record_of)
  from take_line_newline_iff [of "pending s"] line
  have nl: "CHR 0x0A \<notin> set (butlast line)" and rest: "last line \<noteq> CHR 0x0A \<Longrightarrow> line = pending s"
    by auto
  show ?thesis
  proof (cases "last line = CHR 0x0A")
    case True
    with lne have "record_of line = butlast line" "line = butlast line @ [CHR 0x0A]"
      by (simp_all add: record_of_def) (metis append_butlast_last_id)
    with nl app copy empty show ?thesis by (simp add: Let_def)
  next
    case False
    with lne nl have "record_of line = line" "CHR 0x0A \<notin> set line"
      by (simp_all add: record_of_def) (metis append_butlast_last_id in_set_butlast_appendI
          insert_iff list.set(2) set_append empty_iff empty_set Un_iff)
    moreover from rest [OF False] app have "pending s' = []" by simp
    ultimately show ?thesis using app copy empty by (simp add: Let_def)
  qed
qed

theorem reader_strips_one_delimiter_witness:
  "getline \<lparr>pending = [CHR 0x0A, CHR ''x''], at_end = EndOfFile\<rparr>
     = Some ([CHR 0x0A], \<lparr>pending = ''x'', at_end = EndOfFile\<rparr>) \<and>
   last (line_bufs (store_line empty_batch [CHR 0x0A])) = [] \<and>
   getline \<lparr>pending = ''x'', at_end = EndOfFile\<rparr>
     = Some (''x'', \<lparr>pending = [], at_end = EndOfFile\<rparr>) \<and>
   last (line_bufs (store_line empty_batch ''x'')) = ''x''"
proof -
  have g: "getline \<lparr>pending = [CHR 0x0A, CHR ''x''], at_end = EndOfFile\<rparr>
           = Some ([CHR 0x0A], \<lparr>pending = ''x'', at_end = EndOfFile\<rparr>)"
    by (simp add: getline_def)
  have g2: "getline \<lparr>pending = ''x'', at_end = EndOfFile\<rparr>
           = Some (''x'', \<lparr>pending = [], at_end = EndOfFile\<rparr>)"
    by (simp add: getline_def)
  from reader_strips_one_delimiter [OF g, of empty_batch]
       reader_strips_one_delimiter [OF g2, of empty_batch] g g2
  show ?thesis
    by (auto simp: Let_def)
qed

text \<open>
  C8. A line of \<open>2 ^ 32\<close> bytes and its newline: \<open>getline\<close> returns it whole and the copy
  holds all its bytes, but the length stored for the kernel is 0, the cast to
  \<open>uint32_t\<close> having dropped the upper bits. The stride is computed from the full length,
  and the packing loop, which copies the stored number of bytes, leaves the slot zero.
\<close>

theorem long_line_length_truncated:
  "let line = replicate (2 ^ 32) (CHR ''a'') @ [CHR 0x0A];
       b = store_line empty_batch line
   in getline \<lparr>pending = line, at_end = e\<rparr> = Some (line, \<lparr>pending = [], at_end = e\<rparr>) \<and>
      line_bufs b = [replicate (2 ^ 32) (CHR ''a'')] \<and>
      lens_host b = [0] \<and>
      max_len b = 2 ^ 32 \<and>
      stride_bytes_of (max_len b) = 2 ^ 32 \<and>
      pack (ideal_env dev) b = Inr (replicate (2 ^ 32) (CHR 0x00))"
proof -
  have t: "take_line (replicate 4294967296 (CHR ''a'') @ [CHR 0x0A]) = replicate 4294967296 (CHR ''a'') @ [CHR 0x0A]"
    using take_line_replicate [of "CHR ''a''" 4294967296 "[]"] by simp
  have sl: "strip_len (replicate 4294967296 (CHR ''a'') @ [CHR 0x0A]) = 4294967296"
    by (simp add: strip_len_length)
  have st: "stride_bytes_of 4294967296 = 4294967296"
    by (simp add: stride_bytes_of_def size_t_def)
  show ?thesis
    by (simp add: Let_def getline_def t sl st store_line_def empty_batch_def pack_def
          total_bytes_of_def size_t_def num_msgs_def copy_lines_def copy_line_def)
qed

text \<open>
  C4, as amended. For every batch the reader returns whose records are shorter than
  \<open>2 ^ 32\<close> bytes (the batch bound being a \<open>uint32_t\<close>), and whose buffer can be allocated:
  the records of the batch are the records of the next input lines; the packer returns a
  buffer of exactly \<open>num_msgs * stride\<close> bytes; slot \<open>i\<close> (the \<open>stride\<close> bytes from offset
  \<open>i * stride\<close>) is record \<open>i\<close> followed by zeros; and entry \<open>i\<close> of the length array is the
  length of record \<open>i\<close>.
\<close>

theorem pack_layout:
  assumes "read_batch env n s empty_batch = Inr (b, s')"
      and "n < 2 ^ 32"
      and "\<forall>r \<in> set (line_bufs b). length r < 2 ^ 32"
      and "malloc_ok env (num_msgs b * stride_bytes_of (max_len b))"
  shows "line_bufs b = map record_of (take n (lines_of (pending s))) \<and>
         (\<exists>msgs_bytes.
            pack env b = Inr msgs_bytes \<and>
            length msgs_bytes = num_msgs b * stride_bytes_of (max_len b) \<and>
            (\<forall>i < num_msgs b.
               take (stride_bytes_of (max_len b)) (drop (i * stride_bytes_of (max_len b)) msgs_bytes)
                 = line_bufs b ! i
                   @ replicate (stride_bytes_of (max_len b) - length (line_bufs b ! i)) (CHR 0x00) \<and>
               length (line_bufs b ! i) \<le> stride_bytes_of (max_len b) \<and>
               unat (lens_host b ! i) = length (line_bufs b ! i)))"
proof -
  let ?S = "stride_bytes_of (max_len b)"
  let ?rs = "line_bufs b"
  note f = read_batch_facts [OF assms(1)]
  have p: "(2::nat) ^ 32 * 2 ^ 32 = 2 ^ 64" by simp
  have ml: "max_len b < 2 ^ 32"
  proof -
    from assms(3) have "\<forall>r \<in> set ?rs. length r \<le> 2 ^ 32 - 1" by fastforce
    then have "max_len b \<le> 2 ^ 32 - 1" by (rule max_len_bounds(2) [OF f(3)])
    then show ?thesis by simp
  qed
  note sb = stride_bytes_of_bounds [OF ml]
  have le: "\<forall>r \<in> set ?rs. length r \<le> ?S"
    using max_len_bounds(1) [OF f(3)] sb(1) by fastforce
  have "num_msgs b \<le> n" by (simp add: num_msgs_def f(1))
  with assms(2) have nm: "num_msgs b < 2 ^ 32" by simp
  have "num_msgs b * ?S \<le> num_msgs b * 2 ^ 32"
    using sb(2) by (rule mult_le_mono2)
  also have "\<dots> < 2 ^ 32 * 2 ^ 32"
    using nm by simp
  finally have "num_msgs b * ?S < 2 ^ 32 * 2 ^ 32" .
  then have fit: "num_msgs b * ?S < 2 ^ 64" by (simp only: p)
  have pk: "pack env b = Inr (concat (map (slot_of ?S) ?rs))"
    using f(2) le fit assms(4) by (rule pack_closed)
  have len: "length (concat (map (slot_of ?S) ?rs)) = num_msgs b * ?S"
    using length_concat_slots [OF le] by (simp add: num_msgs_def)
  have slots: "\<forall>i < num_msgs b.
      take ?S (drop (i * ?S) (concat (map (slot_of ?S) ?rs)))
        = ?rs ! i @ replicate (?S - length (?rs ! i)) (CHR 0x00) \<and>
      length (?rs ! i) \<le> ?S \<and> unat (lens_host b ! i) = length (?rs ! i)"
  proof (intro allI impI)
    fix i assume "i < num_msgs b"
    then have i: "i < length ?rs" by (simp add: num_msgs_def)
    then have rin: "?rs ! i \<in> set ?rs" by simp
    with assms(3) have small: "length (?rs ! i) < 2 ^ 32" by blast
    have "\<forall>r \<in> set ?rs. length (slot_of ?S r) = ?S"
      using le by (simp add: length_slot_of)
    then have "take ?S (drop (?S * i) (concat (map (slot_of ?S) ?rs))) = slot_of ?S (?rs ! i)"
      using i by (rule take_drop_block)
    then have "take ?S (drop (i * ?S) (concat (map (slot_of ?S) ?rs)))
               = ?rs ! i @ replicate (?S - length (?rs ! i)) (CHR 0x00)"
      using small by (simp add: slot_of_def mult.commute)
    moreover have "unat (lens_host b ! i) = length (?rs ! i)"
      using i small by (simp add: f(2) unat_of_nat)
    ultimately show "take ?S (drop (i * ?S) (concat (map (slot_of ?S) ?rs)))
        = ?rs ! i @ replicate (?S - length (?rs ! i)) (CHR 0x00) \<and>
      length (?rs ! i) \<le> ?S \<and> unat (lens_host b ! i) = length (?rs ! i)"
      using le rin by blast
  qed
  from pk len slots f(1) show ?thesis by blast
qed

theorem pack_layout_witness:
  "read_batch (ideal_env (\<lambda>msgs lens stride n i. 0)) 2
     \<lparr>pending = replicate 130 (CHR ''a'') @ CHR 0x0A # ''xyz'' @ [CHR 0x0A],
      at_end = EndOfFile\<rparr> empty_batch
   = Inr (\<lparr>line_bufs = [replicate 130 (CHR ''a''), ''xyz''], lens_host = [130, 3], max_len = 130\<rparr>,
          \<lparr>pending = [], at_end = EndOfFile\<rparr>) \<and>
   pack (ideal_env (\<lambda>msgs lens stride n i. 0))
     \<lparr>line_bufs = [replicate 130 (CHR ''a''), ''xyz''], lens_host = [130, 3], max_len = 130\<rparr>
   = Inr (replicate 130 (CHR ''a'') @ replicate 62 (CHR 0x00) @ ''xyz'' @ replicate 189 (CHR 0x00)) \<and>
   length (replicate 130 (CHR ''a'') @ replicate 62 (CHR 0x00) @ ''xyz'' @ replicate 189 (CHR 0x00))
   = 2 * stride_bytes_of 130"
proof -
  let ?E = "ideal_env (\<lambda>msgs lens stride n i. 0)"
  let ?s = "\<lparr>pending = replicate 130 (CHR ''a'') @ CHR 0x0A # ''xyz'' @ [CHR 0x0A],
             at_end = EndOfFile\<rparr>"
  let ?b = "\<lparr>line_bufs = [replicate 130 (CHR ''a''), ''xyz''], lens_host = [130, 3], max_len = 130\<rparr>"
  have l: "lines_of (pending ?s) = [replicate 130 (CHR ''a'') @ [CHR 0x0A], ''xyz'' @ [CHR 0x0A]]"
    using lines_of_terminated [of "replicate 130 (CHR ''a'')" "''xyz'' @ [CHR 0x0A]"]
    by simp
  have r: "read_batch ?E 2 ?s empty_batch = Inr (?b, \<lparr>pending = [], at_end = EndOfFile\<rparr>)"
    using record_of_terminated [of "''xyz''"] l
    by (simp add: read_batch_ok num_msgs_def empty_batch_def store_line_def strip_len_length
          Let_def)
  have h2: "(2::nat) < 2 ^ 32" by simp
  have h3: "\<forall>r \<in> set (line_bufs ?b). length r < 2 ^ 32" by simp
  have h4: "malloc_ok ?E (num_msgs ?b * stride_bytes_of (max_len ?b))" by simp
  have st: "stride_bytes_of 130 = 192"
    by (simp add: stride_bytes_of_def size_t_def)
  have nm: "num_msgs ?b = 2" by (simp add: num_msgs_def)
  from pack_layout [OF r h2 h3 h4, THEN conjunct2] obtain m where
    m: "pack ?E ?b = Inr m" and len: "length m = num_msgs ?b * stride_bytes_of (max_len ?b)"
    and sl: "\<forall>i < num_msgs ?b.
       take (stride_bytes_of (max_len ?b)) (drop (i * stride_bytes_of (max_len ?b)) m)
         = line_bufs ?b ! i
           @ replicate (stride_bytes_of (max_len ?b) - length (line_bufs ?b ! i)) (CHR 0x00) \<and>
       length (line_bufs ?b ! i) \<le> stride_bytes_of (max_len ?b) \<and>
       unat (lens_host ?b ! i) = length (line_bufs ?b ! i)"
    by blast
  from sl [rule_format, of 0] nm have s0: "take 192 m = replicate 130 (CHR ''a'') @ replicate 62 (CHR 0x00)"
    by (simp add: st)
  from sl [rule_format, of 1] nm have s1: "take 192 (drop 192 m) = ''xyz'' @ replicate 189 (CHR 0x00)"
    by (simp add: st)
  have "m = take 192 m @ take 192 (drop 192 m)"
    using len nm append_take_drop_id [of 192 m] by (simp add: st)
  with s0 s1 have "m = replicate 130 (CHR ''a'') @ replicate 62 (CHR 0x00) @ ''xyz'' @ replicate 189 (CHR 0x00)"
    by (simp add: st)
  with m r show ?thesis by (simp add: st)
qed

text \<open>
  C4 as stated fails for a batch with a record of \<open>2 ^ 32\<close> bytes: the reader returns the
  batch, the packer returns a buffer, but the slot is all zero instead of the record's
  bytes, and the entry of the length array is 0 instead of \<open>2 ^ 32\<close>.
\<close>

theorem pack_layout_counterexample:
  "read_batch (ideal_env (\<lambda>msgs lens stride n i. 0)) 1
     \<lparr>pending = replicate (2 ^ 32) (CHR ''a'') @ [CHR 0x0A], at_end = EndOfFile\<rparr> empty_batch
   = Inr (\<lparr>line_bufs = [replicate (2 ^ 32) (CHR ''a'')], lens_host = [0], max_len = 2 ^ 32\<rparr>,
          \<lparr>pending = [], at_end = EndOfFile\<rparr>) \<and>
   pack (ideal_env (\<lambda>msgs lens stride n i. 0))
     \<lparr>line_bufs = [replicate (2 ^ 32) (CHR ''a'')], lens_host = [0], max_len = 2 ^ 32\<rparr>
   = Inr (replicate (2 ^ 32) (CHR 0x00)) \<and>
   take (2 ^ 32) (replicate (2 ^ 32) (CHR 0x00)) \<noteq> replicate (2 ^ 32) (CHR ''a'') \<and>
   unat (0 :: u32) \<noteq> length (replicate (2 ^ 32) (CHR ''a''))"
proof -
  have l: "lines_of (replicate 4294967296 (CHR ''a'') @ [CHR 0x0A])
           = [replicate 4294967296 (CHR ''a'') @ [CHR 0x0A]]"
    using lines_of_terminated [of "replicate 4294967296 (CHR ''a'')" "[]"] by simp
  have st: "stride_bytes_of 4294967296 = 4294967296"
    by (simp add: stride_bytes_of_def size_t_def)
  have r: "read_batch (ideal_env (\<lambda>msgs lens stride n i. 0)) 1
     \<lparr>pending = replicate 4294967296 (CHR ''a'') @ [CHR 0x0A], at_end = EndOfFile\<rparr> empty_batch
   = Inr (\<lparr>line_bufs = [replicate 4294967296 (CHR ''a'')], lens_host = [0], max_len = 4294967296\<rparr>,
          \<lparr>pending = [], at_end = EndOfFile\<rparr>)"
    by (simp add: read_batch_ok l num_msgs_def empty_batch_def store_line_def strip_len_length Let_def)
  have p: "pack (ideal_env (\<lambda>msgs lens stride n i. 0))
     \<lparr>line_bufs = [replicate 4294967296 (CHR ''a'')], lens_host = [0], max_len = 4294967296\<rparr>
   = Inr (replicate 4294967296 (CHR 0x00))"
    by (simp add: pack_def Let_def st total_bytes_of_def size_t_def num_msgs_def copy_lines_def
          copy_line_def)
  from r p show ?thesis by simp
qed

text \<open>
  C2. When the environment does not fail (no allocation and no OpenCL call fails, start-up
  succeeds, both files open), the batch bound is positive, and the input fits (no line
  longer than \<open>SSIZE_MAX\<close>, no \<open>size_t\<close> wrap-around in the size of a packed buffer). The
  input stream is the content of the input file, or empty when the output path is the
  input path, the file being truncated before the first read.
  Then the run exits with status 0, and the output file has as many lines as the input
  stream, 65 bytes each; so an empty stream gives an empty output file. A line is counted
  as \<open>line_count\<close> says: a newline at the very end of the stream ends the last line and
  starts no further one.
\<close>

theorem output_line_count:
  assumes "env_ok env" and "bootstrap env n = None" and "0 < n"
      and "fs inp = Some content" and "readable env inp" and "writable env out"
      and "input = (if inp = out then [] else content)"
      and "fits n input"
  shows "status (main env n [prog, inp, out] fs) = Exited 0 \<and>
         (\<exists>output. files_after (main env n [prog, inp, out] fs) out = Some output \<and>
                   line_count output = line_count input \<and>
                   length output = 65 * line_count input)"
proof -
  let ?L = "lines_of input"
  let ?out = "concat (map (batch_text env) (chunks n ?L))"
  have m: "main env n [prog, inp, out] fs
           = \<lparr>status = Exited 0, files_after = fs(out \<mapsto> ?out),
              launched = map length (chunks n ?L)\<rparr>"
    using main_closed [of env n fs inp content out prog] assms(1-6,8)
    by (simp only: assms(7))
  have cc: "concat (chunks n ?L) = ?L"
    using assms(3) by (simp add: concat_chunks)
  have "line_count ?out = length (concat (map (slot_lines env) (chunks n ?L)))"
    by (simp only: length_lines_of [symmetric] lines_of_output)
  also have "\<dots> = length ?L"
    by (simp only: length_concat_slot_lines cc)
  finally have lc: "line_count ?out = line_count input"
    by (simp only: length_lines_of)
  have "\<And>cs. length (concat (map (batch_text env) cs)) = 65 * length (concat cs)"
  proof -
    fix cs show "length (concat (map (batch_text env) cs)) = 65 * length (concat cs)"
      by (induction cs) (simp_all add: length_batch_text)
  qed
  then have "length ?out = 65 * length (concat (chunks n ?L))" .
  then have "length ?out = 65 * line_count input"
    by (simp only: cc length_lines_of)
  with lc m show ?thesis by simp
qed

theorem output_line_count_witness:
  "env_ok (ideal_env (\<lambda>msgs lens stride n i. 0)) \<and>
   bootstrap (ideal_env (\<lambda>msgs lens stride n i. 0)) 2 = None \<and>
   fits 2 (''abc'' @ [CHR 0x0A, CHR 0x0A] @ ''hello'' @ [CHR 0x0A]) \<and>
   line_count (''abc'' @ [CHR 0x0A, CHR 0x0A] @ ''hello'' @ [CHR 0x0A]) = 3 \<and>
   line_count [] = 0 \<and>
   status (main (ideal_env (\<lambda>msgs lens stride n i. 0)) 2 [''sha256_host'', ''in'', ''out'']
             [''in'' \<mapsto> ''abc'' @ [CHR 0x0A, CHR 0x0A] @ ''hello'' @ [CHR 0x0A]]) = Exited 0 \<and>
   (\<exists>output.
      files_after (main (ideal_env (\<lambda>msgs lens stride n i. 0)) 2 [''sha256_host'', ''in'', ''out'']
                     [''in'' \<mapsto> ''abc'' @ [CHR 0x0A, CHR 0x0A] @ ''hello'' @ [CHR 0x0A]]) ''out''
        = Some output \<and>
      line_count output = 3 \<and> length output = 195)"
proof -
  let ?E = "ideal_env (\<lambda>msgs lens stride n i. 0)"
  let ?input = "''abc'' @ [CHR 0x0A, CHR 0x0A] @ ''hello'' @ [CHR 0x0A]"
  let ?fs = "[''in'' \<mapsto> ?input]"
  have lc: "line_count ?input = 3" "line_count [] = 0"
    by (simp_all add: line_count_def)
  have f: "fits 2 ?input"
    by (simp add: fits_def record_of_def SSIZE_MAX_def stride_bytes_of_def size_t_def)
  have i: "?input = (if ''in'' = ''out'' then [] else ?input)"
    by simp
  have h4: "?fs ''in'' = Some ?input" by simp
  from output_line_count [of ?E 2 ?fs "''in''" ?input "''out''" ?input "''sha256_host''"]
    ideal_env_ok [of "\<lambda>msgs lens stride n i. 0"]
    ideal_env_bootstrap [of "\<lambda>msgs lens stride n i. 0" 2] h4 i f
  have "status (main ?E 2 [''sha256_host'', ''in'', ''out''] ?fs) = Exited 0 \<and>
        (\<exists>output. files_after (main ?E 2 [''sha256_host'', ''in'', ''out''] ?fs) ''out'' = Some output \<and>
                  line_count output = line_count ?input \<and> length output = 65 * line_count ?input)"
    by simp
  then show ?thesis
    using lc f ideal_env_ok [of "\<lambda>msgs lens stride n i. 0"]
      ideal_env_bootstrap [of "\<lambda>msgs lens stride n i. 0" 2]
    by simp
qed

text \<open>
  C6. Under the hypotheses of C2: the kernel launches of a run have the global work
  sizes \<open>n, ..., n\<close> followed by the remainder when it is not zero, so no launch is empty,
  and an input of \<open>m * n\<close> lines gives exactly \<open>m\<close> launches of size \<open>n\<close>. Whenever the reader
  returns a batch, the batch holds \<open>min n k\<close> records, \<open>k\<close> being the number of pending
  lines: it is full or the next read reports the end of the stream, and it is empty
  exactly when nothing was pending.
\<close>

theorem batch_closure_and_dispatch:
  assumes "env_ok env" and "bootstrap env n = None" and "0 < n"
      and "fs inp = Some content" and "readable env inp" and "writable env out"
      and "input = (if inp = out then [] else content)"
      and "fits n input"
  shows "launched (main env n [prog, inp, out] fs)
           = replicate (line_count input div n) n
             @ (if line_count input mod n = 0 then [] else [line_count input mod n]) \<and>
         0 \<notin> set (launched (main env n [prog, inp, out] fs)) \<and>
         (\<forall>m. line_count input = m * n \<longrightarrow>
              launched (main env n [prog, inp, out] fs) = replicate m n) \<and>
         (\<forall>s b s'. read_batch env n s empty_batch = Inr (b, s') \<longrightarrow>
              num_msgs b = min n (line_count (pending s)) \<and>
              (num_msgs b = n \<or> getline s' = None) \<and>
              (num_msgs b = 0 \<longleftrightarrow> pending s = []))"
proof -
  let ?L = "lines_of input"
  have m: "main env n [prog, inp, out] fs
           = \<lparr>status = Exited 0,
              files_after = fs(out \<mapsto> concat (map (batch_text env) (chunks n ?L))),
              launched = map length (chunks n ?L)\<rparr>"
    using main_closed [of env n fs inp content out prog] assms(1-6,8)
    by (simp only: assms(7))
  have l: "launched (main env n [prog, inp, out] fs)
           = replicate (line_count input div n) n
             @ (if line_count input mod n = 0 then [] else [line_count input mod n])"
    using chunks_sizes [OF assms(3), of ?L] by (simp add: m length_lines_of)
  have z: "0 \<notin> set (launched (main env n [prog, inp, out] fs))"
    using assms(3) by (auto simp: l)
  have mult: "\<forall>m. line_count input = m * n \<longrightarrow>
                launched (main env n [prog, inp, out] fs) = replicate m n"
    using assms(3) by (simp add: l)
  have rb: "\<forall>s b s'. read_batch env n s empty_batch = Inr (b, s') \<longrightarrow>
              num_msgs b = min n (line_count (pending s)) \<and>
              (num_msgs b = n \<or> getline s' = None) \<and>
              (num_msgs b = 0 \<longleftrightarrow> pending s = [])"
  proof (intro allI impI)
    fix s b s' assume r: "read_batch env n s empty_batch = Inr (b, s')"
    note f = read_batch_facts [OF r]
    have nm: "num_msgs b = min n (line_count (pending s))"
      by (simp add: num_msgs_def f(1) length_lines_of min.commute)
    have "num_msgs b = n \<or> getline s' = None"
    proof (cases "num_msgs b = n")
      case True
      then show ?thesis by simp
    next
      case False
      with nm have "length (lines_of (pending s)) < n"
        by (simp add: length_lines_of)
      then have "pending s' = []" by (simp add: f(4))
      then show ?thesis by (simp add: getline_def)
    qed
    moreover have "num_msgs b = 0 \<longleftrightarrow> pending s = []"
    proof -
      have "line_count (pending s) = 0 \<longleftrightarrow> pending s = []"
        using concat_lines_of [of "pending s"]
        by (auto simp: length_lines_of [symmetric] line_count_def)
      with assms(3) nm show ?thesis by auto
    qed
    ultimately show "num_msgs b = min n (line_count (pending s)) \<and>
              (num_msgs b = n \<or> getline s' = None) \<and>
              (num_msgs b = 0 \<longleftrightarrow> pending s = [])"
      using nm by simp
  qed
  from l z mult rb show ?thesis by blast
qed

theorem batch_closure_and_dispatch_witness:
  "env_ok (ideal_env (\<lambda>msgs lens stride n i. 0)) \<and>
   bootstrap (ideal_env (\<lambda>msgs lens stride n i. 0)) 2 = None \<and>
   fits 2 [CHR ''a'', CHR 0x0A, CHR ''b'', CHR 0x0A, CHR ''c'', CHR 0x0A, CHR ''d'', CHR 0x0A] \<and>
   line_count [CHR ''a'', CHR 0x0A, CHR ''b'', CHR 0x0A, CHR ''c'', CHR 0x0A, CHR ''d'', CHR 0x0A] = 2 * 2 \<and>
   launched (main (ideal_env (\<lambda>msgs lens stride n i. 0)) 2 [''sha256_host'', ''in'', ''out'']
      [''in'' \<mapsto> [CHR ''a'', CHR 0x0A, CHR ''b'', CHR 0x0A, CHR ''c'', CHR 0x0A, CHR ''d'', CHR 0x0A]])
   = [2, 2]"
proof -
  let ?E = "ideal_env (\<lambda>msgs lens stride n i. 0)"
  let ?input = "[CHR ''a'', CHR 0x0A, CHR ''b'', CHR 0x0A, CHR ''c'', CHR 0x0A, CHR ''d'', CHR 0x0A]"
  let ?fs = "[''in'' \<mapsto> ?input]"
  have lc: "line_count ?input = 2 * 2"
    by (simp add: line_count_def)
  have f: "fits 2 ?input"
    by (simp add: fits_def record_of_def SSIZE_MAX_def stride_bytes_of_def size_t_def)
  have i: "?input = (if ''in'' = ''out'' then [] else ?input)"
    by simp
  have h4: "?fs ''in'' = Some ?input" by simp
  from batch_closure_and_dispatch [of ?E 2 ?fs "''in''" ?input "''out''" ?input "''sha256_host''"]
    ideal_env_ok [of "\<lambda>msgs lens stride n i. 0"]
    ideal_env_bootstrap [of "\<lambda>msgs lens stride n i. 0" 2] h4 i f
  have "\<forall>m. line_count ?input = m * 2 \<longrightarrow>
          launched (main ?E 2 [''sha256_host'', ''in'', ''out''] ?fs) = replicate m 2"
    by simp
  with lc have "launched (main ?E 2 [''sha256_host'', ''in'', ''out''] ?fs) = replicate 2 2"
    by blast
  then show ?thesis
    using lc f ideal_env_ok [of "\<lambda>msgs lens stride n i. 0"]
      ideal_env_bootstrap [of "\<lambda>msgs lens stride n i. 0" 2]
    by (simp add: numeral_2_eq_2)
qed






text \<open>
  C10. When the input file opens and the output file can be opened for writing, the run
  leaves a file at the output path and changes no other file, whatever happens later.
  When start-up fails (in particular when there is no platform, when the kernel source
  cannot be read or does not build, or when an array of batch metadata cannot be
  allocated), the output file is left empty, whatever it held before, and no kernel is
  launched.
\<close>

theorem output_file_created_first:
  assumes "fs inp \<noteq> None" and "readable env inp" and "writable env out"
  shows "(\<exists>content. files_after (main env n [prog, inp, out] fs) out = Some content) \<and>
         (\<forall>p. p \<noteq> out \<longrightarrow> files_after (main env n [prog, inp, out] fs) p = fs p) \<and>
         (\<forall>f. bootstrap env n = Some f \<longrightarrow>
              main env n [prog, inp, out] fs
              = \<lparr>status = exit_status f, files_after = fs(out \<mapsto> []), launched = []\<rparr>) \<and>
         (platforms env = [] \<or> \<not> kernel_source_ok env \<or>
          cl_status env ''clBuildProgram'' 0 \<noteq> CL_SUCCESS \<or>
          \<not> malloc_ok env (size_t (n * 8)) \<or> \<not> malloc_ok env (size_t (n * 4))
          \<longrightarrow> (\<exists>f. bootstrap env n = Some f))"
proof -
  from assms(1) obtain content where c: "fs inp = Some content" by blast
  have boot: "platforms env = [] \<or> \<not> kernel_source_ok env \<or>
          cl_status env ''clBuildProgram'' 0 \<noteq> CL_SUCCESS \<or>
          \<not> malloc_ok env (size_t (n * 8)) \<or> \<not> malloc_ok env (size_t (n * 4))
          \<longrightarrow> (\<exists>f. bootstrap env n = Some f)"
    using bootstrap_None [of env n] by (cases "bootstrap env n") auto
  show ?thesis
  proof (cases "bootstrap env n")
    case None
    with c assms(2,3) boot show ?thesis
      by (simp add: main_def Let_def split: prod.splits)
  next
    case (Some f)
    with c assms(2,3) show ?thesis
      by (simp add: main_def Let_def)
  qed
qed

theorem output_file_created_first_witness:
  "main ((ideal_env (\<lambda>msgs lens stride n i. 0))\<lparr>platforms := []\<rparr>) MAX_BATCH_LINES
     [''sha256_host'', ''in'', ''out''] [''in'' \<mapsto> ''abc'', ''out'' \<mapsto> ''old'']
   = \<lparr>status = Exited 1, files_after = [''in'' \<mapsto> ''abc'', ''out'' \<mapsto> []], launched = []\<rparr>"
proof -
  let ?E = "(ideal_env (\<lambda>msgs lens stride n i. 0))\<lparr>platforms := []\<rparr>"
  let ?fs = "[''in'' \<mapsto> ''abc'', ''out'' \<mapsto> ''old'']"
  have p: "platforms ?E = []" by simp
  have h: "?fs ''in'' \<noteq> None" "readable ?E ''in''" "writable ?E ''out''"
    by (simp_all add: ideal_env_def)
  note t = output_file_created_first [where fs = ?fs and inp = "''in''" and env = ?E
      and out = "''out''" and n = MAX_BATCH_LINES and prog = "''sha256_host''", OF h]
  from t p obtain f where f: "bootstrap ?E MAX_BATCH_LINES = Some f" by blast
  have "f = NoPlatforms"
    using f by (simp add: bootstrap_def CHECK_CL_def ideal_env_def)
  with t f have "main ?E MAX_BATCH_LINES [''sha256_host'', ''in'', ''out''] ?fs
        = \<lparr>status = exit_status NoPlatforms, files_after = ?fs(''out'' \<mapsto> []), launched = []\<rparr>"
    by blast
  then show ?thesis by simp
qed

end
